theory Spec2Isabelle
  imports Main "HOL-Library.Multiset"
begin

section \<open>csvimport: column type inference and value normalisation\<close>

text \<open>
  A shallow embedding of \<^verbatim>\<open>main.go\<close>. Go strings are byte sequences, modelled as
  \<^typ>\<open>string\<close> (a list of 8-bit characters). A Go function returning
  \<^verbatim>\<open>(string, error)\<close> returns \<open>error + string\<close> here, \<open>Inl\<close> being the error.
  Go's \<^verbatim>\<open>int\<close> is taken to be 64 bits wide. Numbers that can be large (values of
  digit strings, mantissas) are of type \<^typ>\<open>int\<close>, and only counts are of type
  \<^typ>\<open>nat\<close>.

  The functions of the Go standard library that the program calls (\<^verbatim>\<open>strconv.Atoi\<close>,
  \<^verbatim>\<open>strconv.Itoa\<close>, \<^verbatim>\<open>strconv.ParseFloat\<close>, \<^verbatim>\<open>fmt.Sprintf("%f")\<close>,
  \<^verbatim>\<open>time.Parse\<close>, \<^verbatim>\<open>Time.Format\<close>, \<^verbatim>\<open>strings.ToLower\<close>, ...) are modelled
  from their documented behaviour, in the subsections named after their packages.
\<close>

datatype error =
    ErrSyntax          \<comment> \<open>\<^verbatim>\<open>strconv.ErrSyntax\<close>\<close>
  | ErrRange           \<comment> \<open>\<^verbatim>\<open>strconv.ErrRange\<close>\<close>
  | NotATimestamp      \<comment> \<open>\<^verbatim>\<open>errors.New("not a timestamp")\<close>\<close>
  | NoTrailingPercent  \<comment> \<open>\<^verbatim>\<open>errors.New("no trailing percent")\<close>\<close>
  | ParseError         \<comment> \<open>\<^verbatim>\<open>*time.ParseError\<close>\<close>

subsection \<open>Bytes and decimal digits\<close>

definition is_digit :: "char \<Rightarrow> bool" where
  "is_digit c = (48 \<le> (of_char c :: int) \<and> (of_char c :: int) \<le> 57)"

definition digit_val :: "char \<Rightarrow> int" where
  "digit_val c = of_char c - 48"

definition digit_char :: "int \<Rightarrow> char" where
  "digit_char d = char_of (48 + d)"

text \<open>The value of a string of decimal digits, most significant first.\<close>

definition digits_val :: "string \<Rightarrow> int" where
  "digits_val ds = foldl (\<lambda>n c. n * 10 + digit_val c) 0 ds"

text \<open>The decimal rendering of a number that is not negative, without leading zeros.\<close>

function show_nat :: "int \<Rightarrow> string" where
  "show_nat n = (if n < 10 then [digit_char n]
                 else show_nat (n div 10) @ [digit_char (n mod 10)])"
  by pat_completeness auto
termination
  by (relation "measure nat") auto

declare show_nat.simps [simp del]

text \<open>A number rendered in at least \<open>w\<close> digits, padded with zeros on the left.\<close>

definition zero_pad :: "nat \<Rightarrow> int \<Rightarrow> string" where
  "zero_pad w n = replicate (w - length (show_nat n)) (CHR ''0'') @ show_nat n"

subsection \<open>Package strings\<close>

text \<open>\<^verbatim>\<open>strings.ReplaceAll(s, ",", "")\<close>: every comma is removed.\<close>

definition strip_commas :: "string \<Rightarrow> string" where
  "strip_commas s = filter (\<lambda>c. c \<noteq> CHR '','') s"

text \<open>\<^verbatim>\<open>strings.HasSuffix(s, "%")\<close> and \<^verbatim>\<open>strings.TrimSuffix(s, "%")\<close>.\<close>

definition has_suffix_percent :: "string \<Rightarrow> bool" where
  "has_suffix_percent s = (s \<noteq> [] \<and> last s = CHR ''%'')"

definition trim_suffix_percent :: "string \<Rightarrow> string" where
  "trim_suffix_percent s = (if has_suffix_percent s then butlast s else s)"

subsection \<open>Package strconv: integers\<close>

text \<open>
  \<^verbatim>\<open>strconv.ParseUint\<close> in base 10 and for 64 bits. The bytes are read from left to
  right into an unsigned number. A byte that is not a decimal digit ends the reading with
  \<^verbatim>\<open>ErrSyntax\<close>, a digit that takes the number past \<open>2\<^sup>6\<^sup>4 - 1\<close> ends it with
  \<^verbatim>\<open>ErrRange\<close>, and the first of the two to come decides. Underscores are not
  accepted in base 10, and the empty text is a syntax error.
\<close>

definition maxUint64 :: int where
  "maxUint64 = 2 ^ 64 - 1"

fun ParseUint_loop :: "int \<Rightarrow> string \<Rightarrow> error + int" where
  "ParseUint_loop n [] = Inr n"
| "ParseUint_loop n (c # cs) =
    (if \<not> is_digit c then Inl ErrSyntax
     else if maxUint64 div 10 + 1 \<le> n then Inl ErrRange
     else if maxUint64 < n * 10 + digit_val c then Inl ErrRange
     else ParseUint_loop (n * 10 + digit_val c) cs)"

definition ParseUint :: "string \<Rightarrow> error + int" where
  "ParseUint s = (if s = [] then Inl ErrSyntax else ParseUint_loop 0 s)"

text \<open>
  \<^verbatim>\<open>strconv.ParseInt\<close> in base 10 and for 64 bits: an optional sign, then
  \<^const>\<open>ParseUint\<close> on the rest. A syntax error of \<^const>\<open>ParseUint\<close> is returned
  as it is; its range error, and an unsigned number that does not fit a signed 64-bit
  integer with that sign, are \<^verbatim>\<open>ErrRange\<close>.
\<close>

definition ParseInt :: "string \<Rightarrow> error + int" where
  "ParseInt s =
    (if s = [] then Inl ErrSyntax
     else let neg = (hd s = CHR ''-'');
              ds = (if hd s = CHR ''+'' \<or> hd s = CHR ''-'' then tl s else s)
          in case ParseUint ds of
               Inl err \<Rightarrow> Inl err
             | Inr un \<Rightarrow>
                 if \<not> neg \<and> 2 ^ 63 \<le> un then Inl ErrRange
                 else if neg \<and> 2 ^ 63 < un then Inl ErrRange
                 else Inr (if neg then - un else un))"

text \<open>
  \<^verbatim>\<open>strconv.Atoi\<close>. A text of 1 to 18 bytes is read on a short path of its own: an
  optional sign, then one or more decimal digits and nothing else (\<^verbatim>\<open>ErrSyntax\<close>
  otherwise); a number of so few digits needs no range test. Every other text goes
  through \<^const>\<open>ParseInt\<close>.
\<close>

definition Atoi_fast :: "string \<Rightarrow> error + int" where
  "Atoi_fast s0 =
    (let s = (if hd s0 = CHR ''-'' \<or> hd s0 = CHR ''+'' then tl s0 else s0)
     in if s = [] then Inl ErrSyntax
        else if \<not> list_all is_digit s then Inl ErrSyntax
        else Inr (if hd s0 = CHR ''-'' then - digits_val s else digits_val s))"

definition Atoi :: "string \<Rightarrow> error + int" where
  "Atoi s = (if 0 < length s \<and> length s < 19 then Atoi_fast s else ParseInt s)"

text \<open>\<^verbatim>\<open>strconv.Itoa\<close>: the canonical decimal rendering.\<close>

definition Itoa :: "int \<Rightarrow> string" where
  "Itoa n = (if n < 0 then CHR ''-'' # show_nat (- n) else show_nat n)"

subsection \<open>Package time: the layout 2006-01-02\<close>

text \<open>
  \<^verbatim>\<open>time.Parse("2006-01-02", s)\<close> reads exactly four digits of year, a dash, exactly
  two digits of month (1 to 12), a dash, exactly two digits of day, and accepts no
  further text; the day must exist in that month of that year (proleptic Gregorian
  calendar). The result is midnight UTC of that day, kept here as year, month, day.
\<close>

definition isLeap :: "int \<Rightarrow> bool" where
  "isLeap year = (year mod 4 = 0 \<and> (year mod 100 \<noteq> 0 \<or> year mod 400 = 0))"

definition daysIn :: "int \<Rightarrow> int \<Rightarrow> int" where
  "daysIn m year =
    (if m = 2 then (if isLeap year then 29 else 28)
     else if m = 4 \<or> m = 6 \<or> m = 9 \<or> m = 11 then 30 else 31)"

definition time_Parse :: "string \<Rightarrow> error + (int \<times> int \<times> int)" where
  "time_Parse s =
    (case s of
       [y1, y2, y3, y4, d1, m1, m2, d2, a1, a2] \<Rightarrow>
         if list_all is_digit [y1, y2, y3, y4, m1, m2, a1, a2]
            \<and> d1 = CHR ''-'' \<and> d2 = CHR ''-''
         then let year = digits_val [y1, y2, y3, y4];
                  month = digits_val [m1, m2];
                  day = digits_val [a1, a2]
              in if month = 0 \<or> 12 < month then Inl ParseError
                 else if day < 1 \<or> daysIn month year < day then Inl ParseError
                 else Inr (year, month, day)
         else Inl ParseError
     | _ \<Rightarrow> Inl ParseError)"

text \<open>
  \<^verbatim>\<open>t.Format(time.RFC3339)\<close> of a midnight in UTC: the layout
  \<^verbatim>\<open>2006-01-02T15:04:05Z07:00\<close> with a zero offset printed as \<^verbatim>\<open>Z\<close>.
\<close>

definition format_RFC3339 :: "int \<times> int \<times> int \<Rightarrow> string" where
  "format_RFC3339 t =
    (case t of (year, month, day) \<Rightarrow>
       zero_pad 4 year @ ''-'' @ zero_pad 2 month @ ''-'' @ zero_pad 2 day @ ''T00:00:00Z'')"

subsection \<open>Package strconv: floating point\<close>

text \<open>
  A 64-bit IEEE 754 value: a finite value \<open>(-1)\<^sup>s \<sqdot> m \<sqdot> 2\<^sup>e\<close> with its sign kept
  (so that the negative zero is a value of its own), an infinity, or a NaN.
\<close>

datatype float64 = Finite bool int int | Inf bool | NaN

text \<open>The number of bits of a positive number.\<close>

function bit_length :: "int \<Rightarrow> nat" where
  "bit_length n = (if n \<le> 0 then 0 else Suc (bit_length (n div 2)))"
  by pat_completeness auto
termination
  by (relation "measure nat") auto

declare bit_length.simps [simp del]

text \<open>\<open>\<lfloor>log\<^sub>2 (num / den)\<rfloor>\<close> for positive \<open>num\<close> and \<open>den\<close>.\<close>

definition floor_log2 :: "int \<Rightarrow> int \<Rightarrow> int" where
  "floor_log2 num den =
    (let t = int (bit_length num) - int (bit_length den)
     in if den * 2 ^ nat t \<le> num * 2 ^ nat (- t) then t else t - 1)"

text \<open>\<open>num / den\<close> rounded to the nearest integer, a tie going to the even one.\<close>

definition round_half_even :: "int \<Rightarrow> int \<Rightarrow> int" where
  "round_half_even num den =
    (let q = num div den; r = num mod den
     in if 2 * r < den then q
        else if den < 2 * r then q + 1
        else if even q then q else q + 1)"

text \<open>
  The float64 nearest to the positive rational \<open>num / den\<close> (round to nearest, ties to
  even, subnormals included), as mantissa and binary exponent; \<open>None\<close> when the
  rounded value exceeds the largest finite float64.
\<close>

definition nearest_float64 :: "int \<Rightarrow> int \<Rightarrow> (int \<times> int) option" where
  "nearest_float64 num den =
    (let ex = max (floor_log2 num den) (- 1022) - 52;
         m = round_half_even (num * 2 ^ nat (- ex)) (den * 2 ^ nat ex)
     in if 1024 < int (bit_length m) + ex then None else Some (m, ex))"

text \<open>
  \<^verbatim>\<open>special\<close>: the strings \<^verbatim>\<open>inf\<close> and \<^verbatim>\<open>infinity\<close> with an optional sign, and
  \<^verbatim>\<open>nan\<close> without one, in any mix of upper and lower case. It returns the value and
  the number of bytes it consumed.
\<close>

definition ascii_lower :: "char \<Rightarrow> char" where
  "ascii_lower c =
    (if 65 \<le> (of_char c :: int) \<and> (of_char c :: int) \<le> 90 then char_of (of_char c + 32 :: int)
     else c)"

fun commonPrefixLenIgnoreCase :: "string \<Rightarrow> string \<Rightarrow> nat" where
  "commonPrefixLenIgnoreCase (c # s) (p # prefix) =
     (if ascii_lower c = p then Suc (commonPrefixLenIgnoreCase s prefix) else 0)"
| "commonPrefixLenIgnoreCase _ _ = 0"

definition special_inf :: "bool \<Rightarrow> nat \<Rightarrow> string \<Rightarrow> (float64 \<times> nat) option" where
  "special_inf neg nsign s =
    (let n0 = commonPrefixLenIgnoreCase s ''infinity'';
         n = (if 3 < n0 \<and> n0 < 8 then 3 else n0)
     in if n = 3 \<or> n = 8 then Some (Inf neg, nsign + n) else None)"

definition special :: "string \<Rightarrow> (float64 \<times> nat) option" where
  "special s =
    (case s of
       [] \<Rightarrow> None
     | c # t \<Rightarrow>
         if c = CHR ''+'' \<or> c = CHR ''-'' then special_inf (c = CHR ''-'') 1 t
         else if c = CHR ''i'' \<or> c = CHR ''I'' then special_inf False 0 s
         else if c = CHR ''n'' \<or> c = CHR ''N'' then
           (if commonPrefixLenIgnoreCase s ''nan'' = 3 then Some (NaN, 3) else None)
         else None)"

text \<open>
  \<^verbatim>\<open>readFloat\<close>, the mantissa loop. The state is the one of the Go loop, but for the
  mantissa, which is kept exact here: Go keeps its first 19 digits (16 in base 16) and a
  truncation flag, and converts with the same correctly rounded result.
\<close>

record rf_state =
  mantissa :: int
  nd :: nat
  dp :: int
  sawdot :: bool
  sawdigits :: bool
  underscores :: bool

definition is_hex_letter :: "char \<Rightarrow> bool" where
  "is_hex_letter c = (c \<in> set ''abcdefABCDEF'')"

definition hex_letter_val :: "char \<Rightarrow> int" where
  "hex_letter_val c = of_char (ascii_lower c) - 87"

fun read_mantissa :: "bool \<Rightarrow> rf_state \<Rightarrow> string \<Rightarrow> rf_state \<times> string" where
  "read_mantissa hex st [] = (st, [])"
| "read_mantissa hex st (c # cs) =
    (if c = CHR ''_'' then read_mantissa hex (st\<lparr>underscores := True\<rparr>) cs
     else if c = CHR ''.'' then
       (if sawdot st then (st, c # cs)
        else read_mantissa hex (st\<lparr>sawdot := True, dp := int (nd st)\<rparr>) cs)
     else if is_digit c then
       (if c = CHR ''0'' \<and> nd st = 0
        then read_mantissa hex (st\<lparr>sawdigits := True, dp := dp st - 1\<rparr>) cs
        else read_mantissa hex
               (st\<lparr>sawdigits := True, nd := nd st + 1,
                   mantissa := mantissa st * (if hex then 16 else 10) + digit_val c\<rparr>) cs)
     else if hex \<and> is_hex_letter c then
       read_mantissa hex
         (st\<lparr>sawdigits := True, nd := nd st + 1,
             mantissa := mantissa st * 16 + hex_letter_val c\<rparr>) cs
     else (st, c # cs))"

text \<open>
  The digits of the exponent: underscores are skipped and noted, and the value stops
  growing once it has reached 10000.
\<close>

fun read_exp_digits :: "int \<Rightarrow> bool \<Rightarrow> string \<Rightarrow> int \<times> bool \<times> string" where
  "read_exp_digits e us [] = (e, us, [])"
| "read_exp_digits e us (c # cs) =
    (if c = CHR ''_'' then read_exp_digits e True cs
     else if is_digit c then
       read_exp_digits (if e < 10000 then e * 10 + digit_val c else e) us cs
     else (e, us, c # cs))"

text \<open>
  \<^verbatim>\<open>underscoreOK\<close>: an underscore must stand between two digits, or between a base
  prefix and a digit.
\<close>

fun underscore_scan :: "bool \<Rightarrow> char \<Rightarrow> string \<Rightarrow> bool" where
  "underscore_scan hex saw [] = (saw \<noteq> CHR ''_'')"
| "underscore_scan hex saw (c # cs) =
    (if is_digit c \<or> (hex \<and> is_hex_letter c) then underscore_scan hex (CHR ''0'') cs
     else if c = CHR ''_'' then
       (if saw \<noteq> CHR ''0'' then False else underscore_scan hex (CHR ''_'') cs)
     else if saw = CHR ''_'' then False
     else underscore_scan hex (CHR ''!'') cs)"

definition underscoreOK :: "string \<Rightarrow> bool" where
  "underscoreOK s0 =
    (let s = (if s0 \<noteq> [] \<and> (hd s0 = CHR ''-'' \<or> hd s0 = CHR ''+'') then tl s0 else s0)
     in case s of
          c0 # c1 # rest \<Rightarrow>
            if c0 = CHR ''0'' \<and> c1 \<in> set ''bBoOxX''
            then underscore_scan (c1 = CHR ''x'' \<or> c1 = CHR ''X'') (CHR ''0'') rest
            else underscore_scan False (CHR ''^'') s
        | _ \<Rightarrow> underscore_scan False (CHR ''^'') s)"

text \<open>
  The optional exponent of \<^verbatim>\<open>readFloat\<close>: the letter \<^verbatim>\<open>e\<close> in base 10, \<^verbatim>\<open>p\<close> in
  base 16 (where it is mandatory), in either case, then an optional sign and at least
  one digit. The result is the shift of the point, the flag for underscores and the
  text left unread; \<open>None\<close> is Go's \<^verbatim>\<open>ok = false\<close>.
\<close>

definition read_exponent :: "bool \<Rightarrow> bool \<Rightarrow> string \<Rightarrow> (int \<times> bool \<times> string) option" where
  "read_exponent hex us0 s3 =
    (if s3 \<noteq> [] \<and> hd s3 \<in> (if hex then {CHR ''p'', CHR ''P''} else {CHR ''e'', CHR ''E''})
     then
       let s4 = tl s3 in
       if s4 = [] then None
       else
         let esign = (if hd s4 = CHR ''-'' then - 1 else 1 :: int);
             s5 = (if hd s4 = CHR ''+'' \<or> hd s4 = CHR ''-'' then tl s4 else s4)
         in if s5 = [] \<or> \<not> is_digit (hd s5) then None
            else
              let (e, us, s6) = read_exp_digits 0 us0 s5
              in Some (e * esign, us, s6)
     else if hex then None
     else Some (0, us0, s3))"

text \<open>
  \<^verbatim>\<open>readFloat\<close>: sign, optional \<^verbatim>\<open>0x\<close>, mantissa, exponent, and the check of the
  underscores in the text read. The result is the sign, whether the number is
  hexadecimal, the mantissa with its count of digits (of bits in base 16), the position
  \<open>dp\<close> of the point after the exponent has moved it, and the text left unread;
  \<open>None\<close> is Go's \<^verbatim>\<open>ok = false\<close>.
\<close>

definition readFloat :: "string \<Rightarrow> (bool \<times> bool \<times> int \<times> nat \<times> int \<times> string) option" where
  "readFloat s =
    (if s = [] then None
     else
       let neg = (hd s = CHR ''-'');
           s1 = (if hd s = CHR ''+'' \<or> hd s = CHR ''-'' then tl s else s);
           hex = (2 < length s1 \<and> hd s1 = CHR ''0'' \<and> (s1 ! 1 = CHR ''x'' \<or> s1 ! 1 = CHR ''X''));
           s2 = (if hex then drop 2 s1 else s1);
           (st, s3) = read_mantissa hex
             \<lparr>mantissa = 0, nd = 0, dp = 0, sawdot = False, sawdigits = False,
              underscores = False\<rparr> s2
       in if \<not> sawdigits st then None
          else
            let dp0 = (if sawdot st then dp st else int (nd st));
                dp1 = (if hex then dp0 * 4 else dp0);
                nd1 = (if hex then nd st * 4 else nd st)
            in case read_exponent hex (underscores st) s3 of
                 None \<Rightarrow> None
               | Some (shift, us, rest) \<Rightarrow>
                   if us \<and> \<not> underscoreOK (take (length s - length rest) s) then None
                   else Some (neg, hex, mantissa st, nd1, dp1 + shift, rest))"

text \<open>
  The value read is the mantissa times 10 to the power \<open>dp - nd\<close> in base 10, and
  times 2 to that power in base 16; a mantissa of zero is a zero whatever the exponent.
  As in Go's \<^verbatim>\<open>floatBits\<close>, a decimal point beyond 310 is an overflow and one
  below -330 a zero, before any arithmetic.
\<close>

definition to_float64 :: "bool \<Rightarrow> bool \<Rightarrow> int \<Rightarrow> nat \<Rightarrow> int \<Rightarrow> error + float64" where
  "to_float64 neg hex m n d =
    (if m = 0 then Inr (Finite neg 0 0)
     else if \<not> hex \<and> 310 < d then Inl ErrRange
     else if \<not> hex \<and> d < - 330 then Inr (Finite neg 0 0)
     else
       let b = (if hex then 2 else 10 :: int);
           x = d - int n
       in case nearest_float64 (m * b ^ nat x) (b ^ nat (- x)) of
            None \<Rightarrow> Inl ErrRange
          | Some (k, ex) \<Rightarrow> Inr (Finite neg k ex))"

text \<open>
  \<^verbatim>\<open>strconv.ParseFloat(s, 64)\<close>: the whole of \<open>s\<close> must be consumed
  (\<^verbatim>\<open>ErrSyntax\<close> otherwise), and a value that rounds beyond the largest finite float64
  is \<^verbatim>\<open>ErrRange\<close>.
\<close>

definition ParseFloat :: "string \<Rightarrow> error + float64" where
  "ParseFloat s =
    (case special s of
       Some (v, n) \<Rightarrow> if n = length s then Inr v else Inl ErrSyntax
     | None \<Rightarrow>
        (case readFloat s of
           None \<Rightarrow> Inl ErrSyntax
         | Some (neg, hex, m, n, d, rest) \<Rightarrow>
             if rest \<noteq> [] then Inl ErrSyntax else to_float64 neg hex m n d))"

text \<open>
  \<^verbatim>\<open>fmt.Sprintf("%f", f)\<close>: six digits after the point, the exact binary value
  rounded to nearest with ties to even; the sign is printed only when negative, and the
  infinities and NaN are printed as \<^verbatim>\<open>+Inf\<close>, \<^verbatim>\<open>-Inf\<close> and \<^verbatim>\<open>NaN\<close>.
\<close>

definition Sprintf_f :: "float64 \<Rightarrow> string" where
  "Sprintf_f f =
    (case f of
       NaN \<Rightarrow> ''NaN''
     | Inf neg \<Rightarrow> (if neg then ''-Inf'' else ''+Inf'')
     | Finite neg m ex \<Rightarrow>
         (let q = round_half_even (m * 10 ^ 6 * 2 ^ nat ex) (2 ^ nat (- ex))
          in (if neg then ''-'' else []) @ show_nat (q div 10 ^ 6) @ ''.''
               @ zero_pad 6 (q mod 10 ^ 6)))"

subsection \<open>The parse rules\<close>

text \<open>\<^verbatim>\<open>parseDate\<close>: the only layout is \<^verbatim>\<open>2006-01-02\<close>.\<close>

definition parseDate :: "string \<Rightarrow> error + string" where
  "parseDate s =
    (case time_Parse s of
       Inr t \<Rightarrow> Inr (format_RFC3339 t)
     | Inl _ \<Rightarrow> Inl NotATimestamp)"

definition parseInt :: "string \<Rightarrow> error + string" where
  "parseInt s =
    (case Atoi (strip_commas s) of
       Inl err \<Rightarrow> Inl err
     | Inr n \<Rightarrow> Inr (Itoa n))"

definition parseFloat :: "string \<Rightarrow> error + string" where
  "parseFloat s =
    (case ParseFloat (strip_commas s) of
       Inl err \<Rightarrow> Inl err
     | Inr f \<Rightarrow> Inr (Sprintf_f f))"

definition parsePercent :: "string \<Rightarrow> error + string" where
  "parsePercent s =
    (if \<not> has_suffix_percent s then Inl NoTrailingPercent
     else case ParseFloat (trim_suffix_percent s) of
            Inl err \<Rightarrow> Inl err
          | Inr f \<Rightarrow> Inr (Sprintf_f f))"

subsection \<open>The type hypothesis of a column\<close>

record fieldType =
  Date :: bool
  Int' :: bool   \<comment> \<open>the field \<^verbatim>\<open>Int\<close>; the bare name is HOL's set intersection\<close>
  Float :: bool
  Percent :: bool
  Empty :: bool
  NonEmpty :: bool

definition newFieldType :: fieldType where
  "newFieldType =
    \<lparr>Date = True, Int' = True, Float = True, Percent = True, Empty = False, NonEmpty = False\<rparr>"

text \<open>The sentinel \<^verbatim>\<open>#DIV/0!\<close> is read as the empty string by both passes.\<close>

definition unsentinel :: "string \<Rightarrow> string" where
  "unsentinel s = (if s = ''#DIV/0!'' then [] else s)"

text \<open>
  \<^verbatim>\<open>Parse\<close> (pass 2): the rule of the first flag that is set, in the order of the
  \<^verbatim>\<open>switch\<close>; the value itself when none is.
\<close>

definition Parse :: "fieldType \<Rightarrow> string \<Rightarrow> error + string" where
  "Parse f s0 =
    (let s = unsentinel s0
     in if s = [] then Inr s
        else if Date f then parseDate s
        else if Int' f then parseInt s
        else if Float f then parseFloat s
        else if Percent f then parsePercent s
        else Inr s)"

text \<open>
  \<^verbatim>\<open>Check\<close> (pass 1) mutates the receiver; here it returns the new state. The four
  tests run in sequence, each on the state left by the one before.
\<close>

definition Check :: "string \<Rightarrow> fieldType \<Rightarrow> fieldType" where
  "Check s0 f =
    (let s = unsentinel s0
     in if s = [] then f\<lparr>Empty := True\<rparr>
        else
          let f1 = f\<lparr>NonEmpty := True\<rparr>;
              f2 = (if Date f1 \<and> isl (parseDate s) then f1\<lparr>Date := False\<rparr> else f1);
              f3 = (if Int' f2 \<and> isl (parseInt s) then f2\<lparr>Int' := False\<rparr> else f2);
              f4 = (if Float f3 \<and> isl (parseFloat s) then f3\<lparr>Float := False\<rparr> else f3);
              f5 = (if Percent f4 \<and> isl (parsePercent s) then f4\<lparr>Percent := False\<rparr> else f4)
          in f5)"

text \<open>\<^verbatim>\<open>SqlType\<close>. The last \<^verbatim>\<open>return\<close> does not append the modifier.\<close>

definition SqlType :: "fieldType \<Rightarrow> string" where
  "SqlType f =
    (let modifier = (if \<not> Empty f then '' not null'' else [])
     in if Date f then ''timestamptz'' @ modifier
        else if Int' f then ''integer'' @ modifier
        else if Float f \<or> Percent f then ''float'' @ modifier
        else ''text'')"

text \<open>
  The values of one column, observed top to bottom from the state \<open>f\<close>: what the loop
  of pass 1 does to \<^verbatim>\<open>types[i]\<close>, row after row.
\<close>

definition observe :: "string list \<Rightarrow> fieldType \<Rightarrow> fieldType" where
  "observe vs f = fold Check vs f"

subsection \<open>Column identifiers\<close>

text \<open>
  \<^verbatim>\<open>strings.ToLower\<close>, as far as \<^verbatim>\<open>slug\<close> can tell. The ASCII letters A to Z become
  a to z. A rune outside ASCII is lowered to a rune outside ASCII, with two exceptions:
  U+0130 (bytes C4 B0) becomes \<^verbatim>\<open>i\<close> and U+212A, the Kelvin sign (bytes E2 84 AA),
  becomes \<^verbatim>\<open>k\<close>. The bytes of every other rune are left as they are: \<^verbatim>\<open>slug\<close> next
  replaces every byte that is not in a-z0-9, as all bytes of a rune outside ASCII are.
\<close>

fun ToLower :: "string \<Rightarrow> string" where
  "ToLower [] = []"
| "ToLower (c # cs) =
    (if c = CHR 0xE2 \<and> take 2 cs = [CHR 0x84, CHR 0xAA] then CHR ''k'' # ToLower (drop 2 cs)
     else if c = CHR 0xC4 \<and> take 1 cs = [CHR 0xB0] then CHR ''i'' # ToLower (drop 1 cs)
     else ascii_lower c # ToLower cs)"

definition is_lower_alnum :: "char \<Rightarrow> bool" where
  "is_lower_alnum c = (is_digit c \<or> (97 \<le> (of_char c :: int) \<and> (of_char c :: int) \<le> 122))"

text \<open>
  \<^verbatim>\<open>punctRe.ReplaceAllString(s, "_")\<close> for the expression \<^verbatim>\<open>[^a-z0-9]+\<close>: every
  maximal run of other bytes becomes one underscore. The flag says that the run the
  scan is in has been replaced already.
\<close>

fun replace_punct :: "bool \<Rightarrow> string \<Rightarrow> string" where
  "replace_punct in_run [] = []"
| "replace_punct in_run (c # cs) =
    (if is_lower_alnum c then c # replace_punct False cs
     else if in_run then replace_punct True cs
     else CHR ''_'' # replace_punct True cs)"

text \<open>\<^verbatim>\<open>strings.Trim(s, "_")\<close>.\<close>

definition trim_underscores :: "string \<Rightarrow> string" where
  "trim_underscores s =
    rev (dropWhile (\<lambda>c. c = CHR ''_'') (rev (dropWhile (\<lambda>c. c = CHR ''_'') s)))"

definition slug :: "string \<Rightarrow> string" where
  "slug s = trim_underscores (replace_punct False (ToLower s))"

text \<open>
  The naming loop of \<^verbatim>\<open>handle\<close>. \<^verbatim>\<open>columnSeen\<close>, a Go map used as a set, is the
  list of the names given so far. \<^verbatim>\<open>fmt.Sprintf("_%d", i)\<close> is an underscore and the
  decimal rendering of \<open>i\<close>; the counter is a natural number here (it starts at 2 and
  the map cannot hold enough names to take a 64-bit counter to its end).
\<close>

definition with_suffix :: "string \<Rightarrow> nat \<Rightarrow> string" where
  "with_suffix sl i = sl @ CHR ''_'' # show_nat (int i)"

text \<open>
  The search for a free suffix ends because the renderings of different numbers differ,
  so only finitely many suffixes can be taken. The facts about the decimal rendering that
  this rests on come first.
\<close>


lemma digit_val_digit_char: "0 \<le> d \<Longrightarrow> d < 10 \<Longrightarrow> digit_val (digit_char d) = d"
  by (simp add: digit_val_def digit_char_def)

lemma is_digit_digit_char: "0 \<le> d \<Longrightarrow> d < 10 \<Longrightarrow> is_digit (digit_char d)"
  by (simp add: is_digit_def digit_char_def)

lemma digits_val_snoc: "digits_val (ds @ [c]) = digits_val ds * 10 + digit_val c"
  by (simp add: digits_val_def)

lemma digits_val_show_nat: "0 \<le> n \<Longrightarrow> digits_val (show_nat n) = n"
proof (induction n rule: show_nat.induct)
  case (1 n)
  show ?case
  proof (cases "n < 10")
    case True
    with 1 show ?thesis
      by (subst show_nat.simps) (simp add: digits_val_def digit_val_digit_char)
  next
    case False
    then have "digits_val (show_nat n) = digits_val (show_nat (n div 10)) * 10 + n mod 10"
      by (subst show_nat.simps) (simp add: digits_val_snoc digit_val_digit_char)
    moreover from False have "0 \<le> n div 10" by simp
    ultimately show ?thesis using 1 False by simp
  qed
qed

lemma show_nat_inj: "0 \<le> a \<Longrightarrow> 0 \<le> b \<Longrightarrow> show_nat a = show_nat b \<Longrightarrow> a = b"
  by (metis digits_val_show_nat)

lemma show_nat_digits: "0 \<le> n \<Longrightarrow> list_all is_digit (show_nat n)"
proof (induction n rule: show_nat.induct)
  case (1 n)
  show ?case
  proof (cases "n < 10")
    case True
    with 1 show ?thesis by (subst show_nat.simps) (simp add: is_digit_digit_char)
  next
    case False
    moreover from False have "0 \<le> n div 10" by simp
    ultimately show ?thesis
      using 1 by (subst show_nat.simps) (simp add: is_digit_digit_char)
  qed
qed

lemma show_nat_nonempty: "show_nat n \<noteq> []"
  by (subst show_nat.simps) simp

lemma show_nat_step:
  assumes "0 \<le> n" and "0 \<le> d" and "d < 10"
  shows "show_nat (n * 10 + d) = (if n = 0 then [digit_char d] else show_nat n @ [digit_char d])"
proof (cases "n = 0")
  case True
  with assms show ?thesis by (subst show_nat.simps) simp
next
  case False
  with assms have "\<not> n * 10 + d < 10" by simp
  moreover from assms have "(n * 10 + d) div 10 = n" "(n * 10 + d) mod 10 = d" by simp_all
  ultimately show ?thesis using False by (subst show_nat.simps) simp
qed

lemma show_nat_small: "n < 10 \<Longrightarrow> show_nat n = [digit_char n]"
  by (subst show_nat.simps) simp

lemma digit_char_digit_val: "is_digit c \<Longrightarrow> digit_char (digit_val c) = c"
  by (simp add: is_digit_def digit_char_def digit_val_def)

lemma digit_val_range: "is_digit c \<Longrightarrow> 0 \<le> digit_val c \<and> digit_val c < 10"
  by (simp add: is_digit_def digit_val_def)

lemma digits_val_nonneg: "list_all is_digit ds \<Longrightarrow> 0 \<le> digits_val ds"
proof (induction ds rule: rev_induct)
  case Nil
  show ?case by (simp add: digits_val_def)
next
  case (snoc c ds)
  then show ?case using digit_val_range [of c] by (simp add: digits_val_snoc)
qed

lemma with_suffix_inj: "with_suffix sl a = with_suffix sl b \<Longrightarrow> a = b"
  using show_nat_inj [of "int a" "int b"] by (simp add: with_suffix_def)

lemma finite_taken: "finite {j. with_suffix sl j \<in> set seen}"
proof -
  have "inj_on (with_suffix sl) {j. with_suffix sl j \<in> set seen}"
    by (auto simp: inj_on_def dest: with_suffix_inj)
  moreover have "with_suffix sl ` {j. with_suffix sl j \<in> set seen} \<subseteq> set seen"
    by auto
  ultimately show ?thesis
    by (meson finite_imageD finite_subset List.finite_set)
qed

function find_suffix :: "string list \<Rightarrow> string \<Rightarrow> nat \<Rightarrow> string" where
  "find_suffix seen sl i =
    (if with_suffix sl i \<in> set seen then find_suffix seen sl (Suc i) else with_suffix sl i)"
  by pat_completeness auto
termination
proof (relation "measure (\<lambda>(seen, sl, i). card {j. i \<le> j \<and> with_suffix sl j \<in> set seen})")
  show "wf (measure (\<lambda>(seen, sl, i). card {j. i \<le> j \<and> with_suffix sl j \<in> set seen}))"
    by simp
next
  fix seen :: "string list" and sl :: string and i :: nat
  assume taken: "with_suffix sl i \<in> set seen"
  have fin: "finite {j. i \<le> j \<and> with_suffix sl j \<in> set seen}"
    by (rule finite_subset [OF _ finite_taken [of sl seen]]) auto
  have "i \<in> {j. i \<le> j \<and> with_suffix sl j \<in> set seen}"
    and "i \<notin> {j. Suc i \<le> j \<and> with_suffix sl j \<in> set seen}"
    using taken by simp_all
  moreover have "{j. Suc i \<le> j \<and> with_suffix sl j \<in> set seen}
          \<subseteq> {j. i \<le> j \<and> with_suffix sl j \<in> set seen}"
    by auto
  ultimately have "{j. Suc i \<le> j \<and> with_suffix sl j \<in> set seen}
          \<subset> {j. i \<le> j \<and> with_suffix sl j \<in> set seen}"
    by blast
  then have "card {j. Suc i \<le> j \<and> with_suffix sl j \<in> set seen}
          < card {j. i \<le> j \<and> with_suffix sl j \<in> set seen}"
    by (rule psubset_card_mono [OF fin])
  then show "((seen, sl, Suc i), (seen, sl, i))
          \<in> measure (\<lambda>(seen, sl, i). card {j. i \<le> j \<and> with_suffix sl j \<in> set seen})"
    by simp
qed

declare find_suffix.simps [simp del]

fun assign_names :: "string list \<Rightarrow> string list \<Rightarrow> string list" where
  "assign_names seen [] = []"
| "assign_names seen (col # cols) =
    (let sl0 = slug col;
         sl1 = (if sl0 = [] then ''x'' else sl0);
         sl = (if sl1 \<in> set seen then find_suffix seen sl1 2 else sl1)
     in sl # assign_names (sl # seen) cols)"

definition columnNames :: "string list \<Rightarrow> string list" where
  "columnNames header = assign_names [] header"

subsection \<open>The two passes over a table\<close>

text \<open>
  The loops of \<^verbatim>\<open>handle\<close> over \<^verbatim>\<open>records[1:]\<close>. \<^verbatim>\<open>types[i]\<close> beyond the end of
  \<^verbatim>\<open>types\<close> is a run-time panic (the reader of \<^verbatim>\<open>encoding/csv\<close> refuses a row
  whose length differs from the header's, so the rows of a file never reach it); a
  failure of \<^verbatim>\<open>Parse\<close> in pass 2 ends the program through \<^verbatim>\<open>log.Fatalf\<close>.
\<close>

datatype fault = IndexOutOfRange | InternalError

fun check_row :: "fieldType list \<Rightarrow> string list \<Rightarrow> fault + fieldType list" where
  "check_row types [] = Inr types"
| "check_row [] (field # row) = Inl IndexOutOfRange"
| "check_row (t # types) (field # row) =
    (case check_row types row of
       Inl e \<Rightarrow> Inl e
     | Inr ts \<Rightarrow> Inr (Check field t # ts))"

fun pass1 :: "fieldType list \<Rightarrow> string list list \<Rightarrow> fault + fieldType list" where
  "pass1 types [] = Inr types"
| "pass1 types (row # rows) =
    (case check_row types row of
       Inl e \<Rightarrow> Inl e
     | Inr ts \<Rightarrow> pass1 ts rows)"

fun parse_row :: "fieldType list \<Rightarrow> string list \<Rightarrow> fault + string list" where
  "parse_row types [] = Inr []"
| "parse_row [] (col # row) = Inl IndexOutOfRange"
| "parse_row (t # types) (col # row) =
    (case Parse t col of
       Inl err \<Rightarrow> Inl InternalError
     | Inr v \<Rightarrow>
        (case parse_row types row of
           Inl e \<Rightarrow> Inl e
         | Inr vs \<Rightarrow> Inr (v # vs)))"

fun pass2 :: "fieldType list \<Rightarrow> string list list \<Rightarrow> fault + string list list" where
  "pass2 types [] = Inr []"
| "pass2 types (row # rows) =
    (case parse_row types row of
       Inl e \<Rightarrow> Inl e
     | Inr cells \<Rightarrow>
        (case pass2 types rows of
           Inl e \<Rightarrow> Inl e
         | Inr out \<Rightarrow> Inr (cells # out)))"

text \<open>
  What \<^verbatim>\<open>handle\<close> computes from the records of a file: the column names, the SQL
  types and the rows of the load block.
\<close>

definition handle :: "string list list \<Rightarrow> fault + (string list \<times> string list \<times> string list list)" where
  "handle records =
    (case records of
       [] \<Rightarrow> Inl IndexOutOfRange
     | header # rows \<Rightarrow>
        (case pass1 (map (\<lambda>col. newFieldType) header) rows of
           Inl e \<Rightarrow> Inl e
         | Inr types \<Rightarrow>
            (case pass2 types rows of
               Inl e \<Rightarrow> Inl e
             | Inr out \<Rightarrow> Inr (columnNames header, map SqlType types, out))))"

section \<open>Properties\<close>

subsection \<open>Tags and blank values\<close>

text \<open>
  The four type tags of a hypothesis, and the set of those still possible. A value is
  blank when it is empty or the sentinel.
\<close>

datatype tag = DateTag | IntTag | FloatTag | PercentTag

definition possible :: "fieldType \<Rightarrow> tag set" where
  "possible f =
    (if Date f then {DateTag} else {}) \<union> (if Int' f then {IntTag} else {}) \<union>
    (if Float f then {FloatTag} else {}) \<union> (if Percent f then {PercentTag} else {})"

definition blank :: "string \<Rightarrow> bool" where
  "blank s = (s = [] \<or> s = ''#DIV/0!'')"

subsection \<open>What one observation and a whole column do to each flag\<close>

lemma unsentinel_blank: "unsentinel s = [] \<longleftrightarrow> blank s"
  by (simp add: unsentinel_def blank_def)

lemma Check_blank: "blank s \<Longrightarrow> Check s f = f\<lparr>Empty := True\<rparr>"
  by (simp add: Check_def unsentinel_blank)

lemma Date_Check: "Date (Check s f) = (Date f \<and> (blank s \<or> \<not> isl (parseDate s)))"
  by (cases "blank s") (auto simp: Check_def Let_def unsentinel_def blank_def)

lemma Int_Check: "Int' (Check s f) = (Int' f \<and> (blank s \<or> \<not> isl (parseInt s)))"
  by (cases "blank s") (auto simp: Check_def Let_def unsentinel_def blank_def)

lemma Float_Check: "Float (Check s f) = (Float f \<and> (blank s \<or> \<not> isl (parseFloat s)))"
  by (cases "blank s") (auto simp: Check_def Let_def unsentinel_def blank_def)

lemma Percent_Check: "Percent (Check s f) = (Percent f \<and> (blank s \<or> \<not> isl (parsePercent s)))"
  by (cases "blank s") (auto simp: Check_def Let_def unsentinel_def blank_def)

lemma Empty_Check: "Empty (Check s f) = (Empty f \<or> blank s)"
  by (cases "blank s") (auto simp: Check_def Let_def unsentinel_def blank_def)

lemma NonEmpty_Check: "NonEmpty (Check s f) = (NonEmpty f \<or> \<not> blank s)"
  by (cases "blank s") (auto simp: Check_def Let_def unsentinel_def blank_def)

lemmas Check_fields =
  Date_Check Int_Check Float_Check Percent_Check Empty_Check NonEmpty_Check

lemma Check_commute: "Check a (Check b f) = Check b (Check a f)"
  by (rule fieldType.equality) (auto simp: Check_fields)

lemma observe_Nil: "observe [] f = f"
  by (simp add: observe_def)

lemma observe_Cons: "observe (v # vs) f = observe vs (Check v f)"
  by (simp add: observe_def)

lemma observe_append: "observe (vs @ ws) f = observe ws (observe vs f)"
  by (simp add: observe_def)

lemma Date_observe:
  "Date (observe vs f) = (Date f \<and> (\<forall>v\<in>set vs. blank v \<or> \<not> isl (parseDate v)))"
  by (induction vs arbitrary: f) (auto simp: observe_Nil observe_Cons Check_fields)

lemma Int_observe:
  "Int' (observe vs f) = (Int' f \<and> (\<forall>v\<in>set vs. blank v \<or> \<not> isl (parseInt v)))"
  by (induction vs arbitrary: f) (auto simp: observe_Nil observe_Cons Check_fields)

lemma Float_observe:
  "Float (observe vs f) = (Float f \<and> (\<forall>v\<in>set vs. blank v \<or> \<not> isl (parseFloat v)))"
  by (induction vs arbitrary: f) (auto simp: observe_Nil observe_Cons Check_fields)

lemma Percent_observe:
  "Percent (observe vs f) = (Percent f \<and> (\<forall>v\<in>set vs. blank v \<or> \<not> isl (parsePercent v)))"
  by (induction vs arbitrary: f) (auto simp: observe_Nil observe_Cons Check_fields)

lemma Empty_observe: "Empty (observe vs f) = (Empty f \<or> (\<exists>v\<in>set vs. blank v))"
  by (induction vs arbitrary: f) (auto simp: observe_Nil observe_Cons Check_fields)

lemma NonEmpty_observe: "NonEmpty (observe vs f) = (NonEmpty f \<or> (\<exists>v\<in>set vs. \<not> blank v))"
  by (induction vs arbitrary: f) (auto simp: observe_Nil observe_Cons Check_fields)

lemmas observe_fields =
  Date_observe Int_observe Float_observe Percent_observe Empty_observe NonEmpty_observe

lemma possible_Check: "possible (Check v f) \<subseteq> possible f"
  by (auto simp: possible_def Check_fields split: if_splits)

lemma possible_observe: "possible (observe ws f) \<subseteq> possible f"
proof (induction ws arbitrary: f)
  case Nil
  show ?case by (simp add: observe_Nil)
next
  case (Cons w ws)
  have "possible (observe ws (Check w f)) \<subseteq> possible (Check w f)" by (rule Cons.IH)
  also have "\<dots> \<subseteq> possible f" by (rule possible_Check)
  finally show ?case by (simp add: observe_Cons)
qed

subsection \<open>Narrowing\<close>

text \<open>
  Claim C3. Narrowing is monotone: from any state \<open>f\<close> and after any observations
  \<open>vs\<close>, one more observation \<open>v\<close> leaves a subset of the possible tags, and so do any
  further observations \<open>ws\<close>: a tag that \<^const>\<open>Check\<close> has removed is not possible
  after any later observation.
\<close>

theorem narrowing_monotone:
  "possible (observe (vs @ [v]) f) \<subseteq> possible (observe vs f)
   \<and> possible (observe (vs @ ws) f) \<subseteq> possible (observe vs f)"
  by (simp add: observe_append possible_observe)

theorem narrowing_monotone_witness:
  "possible (observe ([''7''] @ [''x'']) newFieldType) \<subseteq> possible (observe [''7''] newFieldType)
   \<and> possible (observe ([''7''] @ [''x'', ''%'']) newFieldType)
       \<subseteq> possible (observe [''7''] newFieldType)"
  by (rule narrowing_monotone)

subsection \<open>Resolution\<close>

text \<open>The name of an SQL type: the text before the modifier, if there is one.\<close>

definition type_name :: "string \<Rightarrow> string" where
  "type_name t = takeWhile (\<lambda>c. c \<noteq> CHR '' '') t"

text \<open>
  Claim C4. \<^const>\<open>SqlType\<close> follows the precedence Date, Integer, Float-or-Percent,
  Text: the type it returns is \<^verbatim>\<open>timestamptz\<close> when Date is possible, else
  \<^verbatim>\<open>integer\<close> when Integer is, else \<^verbatim>\<open>float\<close> when Float or Percent is, and else
  the fallback \<^verbatim>\<open>text\<close>. For the first three the text returned is the name of the
  type followed by the nullability modifier (nothing when an empty value was seen,
  \<^verbatim>\<open> not null\<close> otherwise); for the fallback it is \<^verbatim>\<open>text\<close> and nothing else.
\<close>

theorem SqlType_precedence:
  "(Date f \<longrightarrow> type_name (SqlType f) = ''timestamptz'')
   \<and> (\<not> Date f \<and> Int' f \<longrightarrow> type_name (SqlType f) = ''integer'')
   \<and> (\<not> Date f \<and> \<not> Int' f \<and> (Float f \<or> Percent f) \<longrightarrow> type_name (SqlType f) = ''float'')
   \<and> (\<not> Date f \<and> \<not> Int' f \<and> \<not> Float f \<and> \<not> Percent f \<longrightarrow> SqlType f = ''text'')
   \<and> (Date f \<or> Int' f \<or> Float f \<or> Percent f \<longrightarrow>
        SqlType f = type_name (SqlType f) @ (if Empty f then [] else '' not null''))"
  by (simp add: SqlType_def type_name_def)

theorem SqlType_precedence_witness:
  "Date (observe [''2023-01-01''] newFieldType)
   \<and> type_name (SqlType (observe [''2023-01-01''] newFieldType)) = ''timestamptz''
   \<and> SqlType (observe [''2023-01-01''] newFieldType) = ''timestamptz not null''
   \<and> \<not> Date (observe [''7'', []] newFieldType) \<and> Int' (observe [''7'', []] newFieldType)
   \<and> type_name (SqlType (observe [''7'', []] newFieldType)) = ''integer''
   \<and> SqlType (observe [''7'', []] newFieldType) = ''integer''
   \<and> \<not> Date (observe [''7%''] newFieldType) \<and> \<not> Int' (observe [''7%''] newFieldType)
   \<and> Percent (observe [''7%''] newFieldType)
   \<and> type_name (SqlType (observe [''7%''] newFieldType)) = ''float''
   \<and> \<not> Date (observe [''x''] newFieldType) \<and> \<not> Int' (observe [''x''] newFieldType)
   \<and> \<not> Float (observe [''x''] newFieldType) \<and> \<not> Percent (observe [''x''] newFieldType)
   \<and> SqlType (observe [''x''] newFieldType) = ''text''"
proof -
  have d: "Date (observe [''2023-01-01''] newFieldType)"
    and de: "\<not> Empty (observe [''2023-01-01''] newFieldType)"
    by code_simp+
  have i: "\<not> Date (observe [''7'', []] newFieldType) \<and> Int' (observe [''7'', []] newFieldType)"
    and ie: "Empty (observe [''7'', []] newFieldType)"
    by code_simp+
  have p: "\<not> Date (observe [''7%''] newFieldType) \<and> \<not> Int' (observe [''7%''] newFieldType)"
    and pp: "Percent (observe [''7%''] newFieldType)"
    by code_simp+
  have t: "\<not> Date (observe [''x''] newFieldType) \<and> \<not> Int' (observe [''x''] newFieldType)
      \<and> \<not> Float (observe [''x''] newFieldType) \<and> \<not> Percent (observe [''x''] newFieldType)"
    by code_simp
  show ?thesis
    using d de i ie p pp t
      SqlType_precedence [of "observe [''2023-01-01''] newFieldType"]
      SqlType_precedence [of "observe [''7'', []] newFieldType"]
      SqlType_precedence [of "observe [''7%''] newFieldType"]
      SqlType_precedence [of "observe [''x''] newFieldType"]
    by auto
qed

text \<open>
  Claim C5. Resolution does not depend on the order of the rows: two orderings of the
  same multiset of values take a fresh hypothesis to the same final state, hence to the
  same SQL type and the same nullability.
\<close>

theorem order_independent:
  assumes "mset vs = mset ws"
  shows "observe vs newFieldType = observe ws newFieldType
         \<and> SqlType (observe vs newFieldType) = SqlType (observe ws newFieldType)
         \<and> Empty (observe vs newFieldType) = Empty (observe ws newFieldType)"
proof -
  have "fold Check vs = fold Check ws"
    by (rule fold_multiset_equiv [OF _ assms]) (simp add: fun_eq_iff Check_commute)
  then have "observe vs newFieldType = observe ws newFieldType"
    by (simp add: observe_def)
  then show ?thesis by simp
qed

theorem order_independent_witness:
  "mset [''1.5'', [], ''x''] = mset [''x'', ''1.5'', []]
   \<and> observe [''1.5'', [], ''x''] newFieldType = observe [''x'', ''1.5'', []] newFieldType
   \<and> SqlType (observe [''1.5'', [], ''x''] newFieldType)
       = SqlType (observe [''x'', ''1.5'', []] newFieldType)
   \<and> Empty (observe [''1.5'', [], ''x''] newFieldType)
       = Empty (observe [''x'', ''1.5'', []] newFieldType)"
proof -
  have m: "mset [''1.5'', [], ''x''] = mset [''x'', ''1.5'', []]"
    by simp
  show ?thesis
    using m order_independent [OF m] by simp
qed

subsection \<open>The sentinel\<close>

text \<open>
  Claim C6. Both passes treat the sentinel \<^verbatim>\<open>#DIV/0!\<close> as they treat the empty string:
  in any state, \<^const>\<open>Check\<close> on either sets the flag \<open>Empty\<close> and changes nothing
  else (the four tags are as before), and \<^const>\<open>Parse\<close> on either returns the
  empty string and no error.
\<close>

theorem sentinel_as_empty:
  "Check [] f = f\<lparr>Empty := True\<rparr> \<and> Check ''#DIV/0!'' f = f\<lparr>Empty := True\<rparr>
   \<and> Parse f [] = Inr [] \<and> Parse f ''#DIV/0!'' = Inr []"
  by (simp add: Check_def Parse_def unsentinel_def)

subsection \<open>Columns without data\<close>

lemma observe_blank:
  "vs \<noteq> [] \<Longrightarrow> list_all blank vs \<Longrightarrow> observe vs f = f\<lparr>Empty := True\<rparr>"
proof (induction vs arbitrary: f)
  case Nil
  then show ?case by simp
next
  case (Cons v vs)
  show ?case
  proof (cases "vs = []")
    case True
    with Cons.prems show ?thesis by (simp add: observe_Cons observe_Nil Check_blank)
  next
    case False
    with Cons show ?thesis by (simp add: observe_Cons Check_blank)
  qed
qed

text \<open>
  Claim C7, as amended. A column with at least one value, all of them blank, leaves all
  four tags possible, only sets \<open>Empty\<close>, and resolves to \<^verbatim>\<open>timestamptz\<close> without
  the modifier \<^verbatim>\<open> not null\<close>.
\<close>

theorem all_empty_column:
  assumes "vs \<noteq> []" and "list_all blank vs"
  shows "observe vs newFieldType = newFieldType\<lparr>Empty := True\<rparr>
         \<and> possible (observe vs newFieldType) = {DateTag, IntTag, FloatTag, PercentTag}
         \<and> SqlType (observe vs newFieldType) = ''timestamptz''"
  using observe_blank [OF assms, of newFieldType]
  by (auto simp: newFieldType_def SqlType_def possible_def)

theorem all_empty_column_witness:
  "[[], ''#DIV/0!'', []] \<noteq> [] \<and> list_all blank [[], ''#DIV/0!'', []]
   \<and> observe [[], ''#DIV/0!'', []] newFieldType = newFieldType\<lparr>Empty := True\<rparr>
   \<and> possible (observe [[], ''#DIV/0!'', []] newFieldType)
       = {DateTag, IntTag, FloatTag, PercentTag}
   \<and> SqlType (observe [[], ''#DIV/0!'', []] newFieldType) = ''timestamptz''"
proof -
  have n: "[[], ''#DIV/0!'', []] \<noteq> ([] :: string list)"
    and b: "list_all blank [[], ''#DIV/0!'', []]"
    by (simp_all add: blank_def)
  show ?thesis
    using n b all_empty_column [OF n b] by blast
qed

text \<open>
  As the claim C7 is stated, for any sequence of blank values, it fails on the sequence
  with no value at all (a file with a header and no row): no observation sets
  \<open>Empty\<close>, and the type carries the modifier.
\<close>

theorem all_empty_column_counterexample:
  "list_all blank [] \<and> SqlType (observe [] newFieldType) = ''timestamptz not null''"
  by (simp add: observe_Nil SqlType_def newFieldType_def)

subsection \<open>Nullability\<close>

text \<open>
  For the three types other than \<^verbatim>\<open>text\<close>, the modifier \<^verbatim>\<open> not null\<close> is absent
  exactly when a blank value was observed.
\<close>

lemma nullable_iff_blank_seen:
  assumes "possible (observe vs newFieldType) \<noteq> {}"
  shows "(\<exists>name. SqlType (observe vs newFieldType) = name @ '' not null'')
         \<longleftrightarrow> \<not> (\<exists>v\<in>set vs. blank v)"
proof -
  let ?f = "observe vs newFieldType"
  have e: "Empty ?f = (\<exists>v\<in>set vs. blank v)"
    by (simp add: Empty_observe newFieldType_def)
  from assms have "Date ?f \<or> Int' ?f \<or> Float ?f \<or> Percent ?f"
    by (auto simp: possible_def split: if_splits)
  then consider "Date ?f" | "\<not> Date ?f" "Int' ?f"
    | "\<not> Date ?f" "\<not> Int' ?f" "Float ?f \<or> Percent ?f"
    by blast
  then show ?thesis
  proof cases
    case 1
    then have "SqlType ?f = ''timestamptz'' @ (if Empty ?f then [] else '' not null'')"
      by (simp add: SqlType_def)
    then show ?thesis unfolding e [symmetric] by (cases "Empty ?f") auto
  next
    case 2
    then have "SqlType ?f = ''integer'' @ (if Empty ?f then [] else '' not null'')"
      by (simp add: SqlType_def)
    then show ?thesis unfolding e [symmetric] by (cases "Empty ?f") auto
  next
    case 3
    then have "SqlType ?f = ''float'' @ (if Empty ?f then [] else '' not null'')"
      by (simp add: SqlType_def)
    then show ?thesis unfolding e [symmetric] by (cases "Empty ?f") auto
  qed
qed

text \<open>
  Claim C2. The claim asks for the modifier \<^verbatim>\<open> not null\<close> on every column with no
  blank value, whatever its type. The last \<^verbatim>\<open>return\<close> of \<^verbatim>\<open>SqlType\<close> leaves the
  modifier out: the column with the single value \<^verbatim>\<open>abc\<close> has seen no blank value, and
  its type is \<^verbatim>\<open>text\<close>, without the modifier.
\<close>

theorem text_column_never_not_null:
  "\<not> Empty (observe [''abc''] newFieldType) \<and> \<not> blank ''abc''
   \<and> SqlType (observe [''abc''] newFieldType) = ''text''"
  by code_simp

subsection \<open>Float and Percent exclude each other\<close>

text \<open>
  No text that \<^const>\<open>ParseFloat\<close> accepts contains a percent sign: neither the
  special values nor any of the scanners of \<^const>\<open>readFloat\<close> consume one, so a
  percent sign in the text is still in the text left unread.
\<close>

lemma pct_not_digit: "\<not> is_digit (CHR ''%'')"
  by (simp add: is_digit_def)

lemma pct_not_hex_letter: "\<not> is_hex_letter (CHR ''%'')"
  by (simp add: is_hex_letter_def)

lemma ascii_lower_pct_self: "ascii_lower (CHR ''%'') = CHR ''%''"
  by (simp add: ascii_lower_def)

lemma cpl_le: "commonPrefixLenIgnoreCase s p \<le> length s"
  by (induction s p rule: commonPrefixLenIgnoreCase.induct) auto

lemma cpl_full_no_pct:
  "commonPrefixLenIgnoreCase s p = length s \<Longrightarrow> CHR ''%'' \<notin> set p \<Longrightarrow> CHR ''%'' \<notin> set s"
proof (induction s p rule: commonPrefixLenIgnoreCase.induct)
  case (1 c s p prefix)
  then show ?case by (auto simp: ascii_lower_pct_self split: if_splits)
qed auto

lemma special_inf_no_pct:
  assumes "special_inf neg k t = Some (v, n)" and "n = k + length t"
  shows "CHR ''%'' \<notin> set t"
proof -
  let ?n0 = "commonPrefixLenIgnoreCase t ''infinity''"
  have le: "?n0 \<le> length t" by (rule cpl_le)
  from assms have "?n0 = length t"
    using le by (auto simp: special_inf_def Let_def split: if_splits)
  then show ?thesis by (rule cpl_full_no_pct) simp
qed

lemma special_no_pct:
  assumes "special s = Some (v, n)" and "n = length s"
  shows "CHR ''%'' \<notin> set s"
proof (cases s)
  case Nil
  then show ?thesis by simp
next
  case (Cons c t)
  consider "c = CHR ''+'' \<or> c = CHR ''-''"
    | "\<not> (c = CHR ''+'' \<or> c = CHR ''-'')" "c = CHR ''i'' \<or> c = CHR ''I''"
    | "\<not> (c = CHR ''+'' \<or> c = CHR ''-'')" "\<not> (c = CHR ''i'' \<or> c = CHR ''I'')"
    by blast
  then show ?thesis
  proof cases
    case 1
    with assms Cons have "special_inf (c = CHR ''-'') 1 t = Some (v, n)" "n = 1 + length t"
      by (simp_all add: special_def)
    then have "CHR ''%'' \<notin> set t" by (rule special_inf_no_pct)
    with 1 Cons show ?thesis by auto
  next
    case 2
    with assms Cons have "special_inf False 0 s = Some (v, n)" "n = 0 + length s"
      by (simp_all add: special_def)
    then show ?thesis by (rule special_inf_no_pct)
  next
    case 3
    with assms Cons have "commonPrefixLenIgnoreCase s ''nan'' = 3" "n = 3"
      by (auto simp: special_def split: if_splits)
    with assms have "commonPrefixLenIgnoreCase s ''nan'' = length s" by simp
    then show ?thesis by (rule cpl_full_no_pct) simp
  qed
qed

lemma read_mantissa_keeps_pct:
  "CHR ''%'' \<in> set cs \<Longrightarrow> CHR ''%'' \<in> set (snd (read_mantissa hex st cs))"
proof (induction hex st cs rule: read_mantissa.induct)
  case (1 hex st)
  then show ?case by simp
next
  case (2 hex st c cs)
  show ?case
  proof (cases "c = CHR ''%''")
    case True
    then show ?thesis by (simp add: pct_not_digit pct_not_hex_letter)
  next
    case False
    with "2.prems" have pct: "CHR ''%'' \<in> set cs" by simp
    consider (us) "c = CHR ''_''"
      | (dot2) "c \<noteq> CHR ''_''" "c = CHR ''.''" "sawdot st"
      | (dot1) "c \<noteq> CHR ''_''" "c = CHR ''.''" "\<not> sawdot st"
      | (zero) "c \<noteq> CHR ''_''" "c \<noteq> CHR ''.''" "is_digit c" "c = CHR ''0'' \<and> nd st = 0"
      | (digit) "c \<noteq> CHR ''_''" "c \<noteq> CHR ''.''" "is_digit c" "\<not> (c = CHR ''0'' \<and> nd st = 0)"
      | (hexl) "c \<noteq> CHR ''_''" "c \<noteq> CHR ''.''" "\<not> is_digit c" "hex \<and> is_hex_letter c"
      | (stop) "c \<noteq> CHR ''_''" "c \<noteq> CHR ''.''" "\<not> is_digit c" "\<not> (hex \<and> is_hex_letter c)"
      by blast
    then show ?thesis
    proof cases
      case us
      then show ?thesis using "2.IH" pct by auto
    next
      case dot2
      then show ?thesis using "2.prems" by auto
    next
      case dot1
      then show ?thesis using "2.IH" pct by auto
    next
      case zero
      then show ?thesis using "2.IH" pct by auto
    next
      case digit
      then show ?thesis using "2.IH" pct by auto
    next
      case hexl
      then show ?thesis using "2.IH" pct by auto
    next
      case stop
      then show ?thesis using "2.prems" by auto
    qed
  qed
qed

lemma read_exp_digits_keeps_pct:
  "CHR ''%'' \<in> set cs \<Longrightarrow> CHR ''%'' \<in> set (snd (snd (read_exp_digits e us cs)))"
  by (induction e us cs rule: read_exp_digits.induct) (auto simp: pct_not_digit)

lemma tl_keeps_pct: "CHR ''%'' \<in> set s \<Longrightarrow> hd s \<noteq> CHR ''%'' \<Longrightarrow> CHR ''%'' \<in> set (tl s)"
  by (cases s) auto

lemma drop2_keeps_pct:
  "CHR ''%'' \<in> set s \<Longrightarrow> hd s \<noteq> CHR ''%'' \<Longrightarrow> s ! 1 \<noteq> CHR ''%'' \<Longrightarrow> CHR ''%'' \<in> set (drop 2 s)"
  by (cases s; cases "tl s") auto

lemma read_exponent_keeps_pct:
  assumes pct: "CHR ''%'' \<in> set s3"
    and re: "read_exponent hex us0 s3 = Some (shift, us, rest)"
  shows "CHR ''%'' \<in> set rest"
proof (cases "s3 \<noteq> [] \<and> hd s3 \<in> (if hex then {CHR ''p'', CHR ''P''} else {CHR ''e'', CHR ''E''})")
  case False
  with re have "rest = s3"
    by (auto simp: read_exponent_def split: if_splits)
  with pct show ?thesis by simp
next
  case True
  define s4 where "s4 = tl s3"
  define s5 where "s5 = (if hd s4 = CHR ''+'' \<or> hd s4 = CHR ''-'' then tl s4 else s4)"
  from True have "hd s3 \<noteq> CHR ''%''" by (auto split: if_splits)
  with pct have p4: "CHR ''%'' \<in> set s4"
    unfolding s4_def by (rule tl_keeps_pct)
  have p5: "CHR ''%'' \<in> set s5"
    using p4 by (auto simp: s5_def intro: tl_keeps_pct)
  obtain e us' s6 where r: "read_exp_digits 0 us0 s5 = (e, us', s6)"
    by (cases "read_exp_digits 0 us0 s5") auto
  have p6: "CHR ''%'' \<in> set s6"
    using read_exp_digits_keeps_pct [OF p5, of 0 us0] r by simp
  from re True r have "rest = s6"
    unfolding read_exponent_def Let_def s4_def [symmetric]
    by (simp add: s5_def [symmetric] split: if_splits)
  with p6 show ?thesis by simp
qed

lemma readFloat_keeps_pct:
  assumes pct: "CHR ''%'' \<in> set s"
    and rf: "readFloat s = Some (neg, hex, m, n, d, rest)"
  shows "CHR ''%'' \<in> set rest"
proof -
  define s1 where "s1 = (if hd s = CHR ''+'' \<or> hd s = CHR ''-'' then tl s else s)"
  define hx where
    "hx = (2 < length s1 \<and> hd s1 = CHR ''0'' \<and> (s1 ! 1 = CHR ''x'' \<or> s1 ! 1 = CHR ''X''))"
  define s2 where "s2 = (if hx then drop 2 s1 else s1)"
  define st0 where "st0 = \<lparr>mantissa = 0, nd = 0, dp = 0, sawdot = False, sawdigits = False,
              underscores = False\<rparr>"
  obtain st s3 where rm: "read_mantissa hx st0 s2 = (st, s3)"
    by (cases "read_mantissa hx st0 s2") auto
  have p1: "CHR ''%'' \<in> set s1"
    using pct by (auto simp: s1_def intro: tl_keeps_pct)
  have p2: "CHR ''%'' \<in> set s2"
    using p1 by (auto simp: s2_def hx_def intro: drop2_keeps_pct)
  have p3: "CHR ''%'' \<in> set s3"
    using read_mantissa_keeps_pct [OF p2, of hx st0] rm by simp
  from rf rm obtain shift us where "read_exponent hx (underscores st) s3 = Some (shift, us, rest)"
    unfolding readFloat_def Let_def s1_def [symmetric]
    unfolding hx_def [symmetric]
    unfolding s2_def [symmetric] st0_def [symmetric]
    by (auto split: if_splits option.splits)
  with p3 show ?thesis by (rule read_exponent_keeps_pct)
qed

lemma ParseFloat_no_pct:
  assumes "ParseFloat s = Inr v"
  shows "CHR ''%'' \<notin> set s"
proof (cases "special s")
  case (Some a)
  obtain w n where a: "a = (w, n)" by (cases a)
  with assms Some have "n = length s"
    by (auto simp: ParseFloat_def split: if_splits)
  with Some a show ?thesis by (auto dest: special_no_pct)
next
  case None
  show ?thesis
  proof
    assume pct: "CHR ''%'' \<in> set s"
    from assms None obtain neg hex m n d where "readFloat s = Some (neg, hex, m, n, d, [])"
      by (auto simp: ParseFloat_def split: option.splits if_splits)
    from readFloat_keeps_pct [OF pct this] show False by simp
  qed
qed

lemma parsePercent_not_parseFloat:
  "\<not> (\<not> isl (parseFloat s) \<and> \<not> isl (parsePercent s))"
proof
  assume a: "\<not> isl (parseFloat s) \<and> \<not> isl (parsePercent s)"
  then have "has_suffix_percent s"
    by (auto simp: parsePercent_def split: if_splits)
  then have "CHR ''%'' \<in> set s"
    using last_in_set [of s] by (auto simp: has_suffix_percent_def)
  then have "CHR ''%'' \<in> set (strip_commas s)"
    by (simp add: strip_commas_def)
  moreover from a obtain v where "ParseFloat (strip_commas s) = Inr v"
    by (auto simp: parseFloat_def split: sum.splits)
  ultimately show False by (auto dest: ParseFloat_no_pct)
qed

text \<open>
  Claim C10. No text is accepted by both the Float rule and the Percent rule: the Percent
  rule wants a last character \<^verbatim>\<open>%\<close>, which removing the commas keeps and
  \<^const>\<open>ParseFloat\<close> refuses. Hence, from any state, once \<^const>\<open>Check\<close> has seen a
  value that is not blank, the flags \<open>Float\<close> and \<open>Percent\<close> are not both set, and
  they are not both set at the end of a column that holds such a value.
\<close>

theorem float_percent_exclusive:
  "(\<not> isl (parseFloat s) \<longrightarrow> isl (parsePercent s))
   \<and> (\<not> blank v \<longrightarrow> \<not> (Float (Check v f) \<and> Percent (Check v f)))
   \<and> (v \<in> set vs \<and> \<not> blank v \<longrightarrow> \<not> (Float (observe vs f) \<and> Percent (observe vs f)))"
proof (intro conjI impI)
  show "isl (parsePercent s)" if "\<not> isl (parseFloat s)"
    using that parsePercent_not_parseFloat [of s] by blast
  show "\<not> (Float (Check v f) \<and> Percent (Check v f))" if "\<not> blank v"
    using that parsePercent_not_parseFloat [of v] by (simp add: Float_Check Percent_Check)
  show "\<not> (Float (observe vs f) \<and> Percent (observe vs f))" if "v \<in> set vs \<and> \<not> blank v"
  proof
    assume "Float (observe vs f) \<and> Percent (observe vs f)"
    with that have "\<not> isl (parseFloat v) \<and> \<not> isl (parsePercent v)"
      by (auto simp: Float_observe Percent_observe)
    with parsePercent_not_parseFloat [of v] show False by blast
  qed
qed

theorem float_percent_exclusive_witness:
  "\<not> isl (parseFloat ''1.5'') \<and> isl (parsePercent ''1.5'')
   \<and> \<not> blank ''1.5''
   \<and> \<not> (Float (Check ''1.5'' newFieldType) \<and> Percent (Check ''1.5'' newFieldType))
   \<and> ''10%'' \<in> set [[], ''10%''] \<and> \<not> blank ''10%''
   \<and> \<not> (Float (observe [[], ''10%''] newFieldType) \<and> Percent (observe [[], ''10%''] newFieldType))"
proof -
  have a: "\<not> isl (parseFloat ''1.5'')" by code_simp
  have b: "\<not> blank ''1.5''" and c: "\<not> blank ''10%''" by (simp_all add: blank_def)
  have d: "''10%'' \<in> set [[], ''10%'']" by simp
  show ?thesis
    using a b c d float_percent_exclusive [of "''1.5''" "''1.5''" newFieldType "[[], ''10%'']"]
      float_percent_exclusive [of "''1.5''" "''10%''" newFieldType "[[], ''10%'']"]
    by blast
qed

subsection \<open>The Integer rule\<close>

text \<open>
  The words of the rule. A base-10 signed integer is an optional sign followed by one or
  more decimal digits and nothing else; its value is that of the digits, negated under a
  minus sign. The canonical decimal text of an integer has no plus sign and no leading
  zero, and zero is written \<^verbatim>\<open>0\<close>. A signed 64-bit integer lies between \<open>- 2\<^sup>6\<^sup>3\<close>
  and \<open>2\<^sup>6\<^sup>3 - 1\<close>.
\<close>

definition sign_stripped :: "string \<Rightarrow> string" where
  "sign_stripped t = (if t \<noteq> [] \<and> (hd t = CHR ''+'' \<or> hd t = CHR ''-'') then tl t else t)"

definition signed_decimal :: "string \<Rightarrow> bool" where
  "signed_decimal t = (sign_stripped t \<noteq> [] \<and> list_all is_digit (sign_stripped t))"

definition decimal_value :: "string \<Rightarrow> int" where
  "decimal_value t =
    (if t \<noteq> [] \<and> hd t = CHR ''-'' then - digits_val (sign_stripped t)
     else digits_val (sign_stripped t))"

definition canonical_decimal :: "string \<Rightarrow> bool" where
  "canonical_decimal t =
    (signed_decimal t \<and> hd t \<noteq> CHR ''+'' \<and> (hd (sign_stripped t) = CHR ''0'' \<longrightarrow> t = ''0''))"

definition fits_int64 :: "int \<Rightarrow> bool" where
  "fits_int64 n = (- (2 ^ 63) \<le> n \<and> n < 2 ^ 63)"

text \<open>
  What \<^const>\<open>ParseUint_loop\<close> returns: the digits read so far only grow the number, so
  an overflow on the way is an overflow of the whole.
\<close>

lemma not_digit_sign: "\<not> is_digit (CHR ''+'')" "\<not> is_digit (CHR ''-'')" "\<not> is_digit (CHR '','')"
  by (simp_all add: is_digit_def)

lemma foldl_digits_ge:
  "0 \<le> n \<Longrightarrow> list_all is_digit ds \<Longrightarrow> n \<le> foldl (\<lambda>n c. n * 10 + digit_val c) n ds"
proof (induction ds arbitrary: n)
  case Nil
  show ?case by simp
next
  case (Cons c cs)
  from Cons.prems have c: "0 \<le> digit_val c" and cs: "list_all is_digit cs"
    using digit_val_range [of c] by simp_all
  from Cons.prems(1) c have "0 \<le> n * 10 + digit_val c" by simp
  from Cons.IH [OF this cs] Cons.prems(1) c show ?case by simp
qed

lemma ParseUint_loop_Inr:
  "0 \<le> n \<Longrightarrow> n < 2 ^ 64 \<Longrightarrow>
   ParseUint_loop n ds = Inr m \<longleftrightarrow>
     list_all is_digit ds \<and> m = foldl (\<lambda>n c. n * 10 + digit_val c) n ds \<and> m < 2 ^ 64"
proof (induction ds arbitrary: n)
  case Nil
  then show ?case by auto
next
  case (Cons c cs)
  let ?n' = "n * 10 + digit_val c"
  show ?case
  proof (cases "is_digit c")
    case False
    then show ?thesis by simp
  next
    case True
    with digit_val_range [of c] have d: "0 \<le> digit_val c" "digit_val c < 10" by simp_all
    from Cons.prems d have n': "0 \<le> ?n'" by simp
    show ?thesis
    proof (cases "?n' < 2 ^ 64")
      case small: True
      then have "\<not> maxUint64 div 10 + 1 \<le> n" "\<not> maxUint64 < ?n'"
        using d by (simp_all add: maxUint64_def)
      with True have "ParseUint_loop n (c # cs) = ParseUint_loop ?n' cs" by simp
      with Cons.IH [OF n' small] True show ?thesis by simp
    next
      case big: False
      then have "maxUint64 div 10 + 1 \<le> n \<or> maxUint64 < ?n'" by (simp add: maxUint64_def)
      with True have "ParseUint_loop n (c # cs) = Inl ErrRange" by auto
      moreover have "\<not> foldl (\<lambda>n c. n * 10 + digit_val c) ?n' cs < 2 ^ 64"
        if "list_all is_digit cs"
        using foldl_digits_ge [OF n' that] big by simp
      ultimately show ?thesis by auto
    qed
  qed
qed

lemma ParseUint_Inr:
  "ParseUint ds = Inr m \<longleftrightarrow>
     ds \<noteq> [] \<and> list_all is_digit ds \<and> m = digits_val ds \<and> m < 2 ^ 64"
  using ParseUint_loop_Inr [of 0 ds m] by (simp add: ParseUint_def digits_val_def)

lemma digits_val_bound: "list_all is_digit ds \<Longrightarrow> digits_val ds < 10 ^ length ds"
proof (induction ds rule: rev_induct)
  case Nil
  show ?case by (simp add: digits_val_def)
next
  case (snoc c ds)
  then have "digits_val ds < 10 ^ length ds" "digit_val c < 10"
    using digit_val_range [of c] by simp_all
  then have "digits_val ds * 10 + digit_val c < 10 ^ length ds * 10" by simp
  then show ?case by (simp add: digits_val_snoc)
qed

text \<open>
  \<^const>\<open>ParseInt\<close> and the short path of \<^const>\<open>Atoi\<close> succeed on the same texts with
  the same values: the base-10 signed integers that fit 64 bits.
\<close>

lemma ParseInt_Inr:
  "ParseInt s = Inr n \<longleftrightarrow> signed_decimal s \<and> fits_int64 (decimal_value s) \<and> n = decimal_value s"
proof (cases "s = []")
  case True
  then show ?thesis by (simp add: ParseInt_def signed_decimal_def sign_stripped_def)
next
  case False
  define ds where "ds = sign_stripped s"
  define neg where "neg = (hd s = CHR ''-'')"
  from False have ds: "(if hd s = CHR ''+'' \<or> hd s = CHR ''-'' then tl s else s) = ds"
    by (simp add: ds_def sign_stripped_def)
  from False have v: "decimal_value s = (if neg then - digits_val ds else digits_val ds)"
    by (simp add: decimal_value_def ds_def neg_def)
  have sd: "signed_decimal s \<longleftrightarrow> ds \<noteq> [] \<and> list_all is_digit ds"
    by (simp add: signed_decimal_def ds_def)
  from False have unfold: "ParseInt s =
      (case ParseUint ds of
         Inl err \<Rightarrow> Inl err
       | Inr un \<Rightarrow>
           if \<not> neg \<and> 2 ^ 63 \<le> un then Inl ErrRange
           else if neg \<and> 2 ^ 63 < un then Inl ErrRange
           else Inr (if neg then - un else un))"
    unfolding neg_def by (simp add: ParseInt_def Let_def ds)
  show ?thesis
  proof (cases "ParseUint ds")
    case (Inl e)
    then have none: "\<not> (ds \<noteq> [] \<and> list_all is_digit ds \<and> digits_val ds < 2 ^ 64)"
      using ParseUint_Inr [of ds "digits_val ds"] by auto
    have "\<not> (signed_decimal s \<and> fits_int64 (decimal_value s))"
    proof
      assume a: "signed_decimal s \<and> fits_int64 (decimal_value s)"
      with sd none have "2 ^ 64 \<le> digits_val ds" by auto
      with a show False by (simp add: v fits_int64_def split: if_splits)
    qed
    with Inl show ?thesis by (auto simp: unfold)
  next
    case (Inr un)
    then have un: "ds \<noteq> []" "list_all is_digit ds" "un = digits_val ds"
      using ParseUint_Inr [of ds un] by simp_all
    from digits_val_nonneg [OF un(2)] un(3) have "0 \<le> un" by simp
    then have "fits_int64 (decimal_value s) \<longleftrightarrow> \<not> (\<not> neg \<and> 2 ^ 63 \<le> un) \<and> \<not> (neg \<and> 2 ^ 63 < un)"
      by (auto simp: v un(3) fits_int64_def)
    with Inr un sd show ?thesis by (auto simp: unfold v)
  qed
qed

lemma Atoi_fast_Inr:
  assumes "0 < length s" and "length s < 19"
  shows "Atoi_fast s = Inr n \<longleftrightarrow>
    signed_decimal s \<and> fits_int64 (decimal_value s) \<and> n = decimal_value s"
proof -
  define ds where "ds = sign_stripped s"
  from assms have s: "s \<noteq> []" by auto
  then have ds: "(if hd s = CHR ''-'' \<or> hd s = CHR ''+'' then tl s else s) = ds"
    by (auto simp: ds_def sign_stripped_def)
  from s have v: "decimal_value s = (if hd s = CHR ''-'' then - digits_val ds else digits_val ds)"
    by (simp add: decimal_value_def ds_def)
  have sd: "signed_decimal s \<longleftrightarrow> ds \<noteq> [] \<and> list_all is_digit ds"
    by (simp add: signed_decimal_def ds_def)
  have unfold: "Atoi_fast s =
      (if ds = [] then Inl ErrSyntax
       else if \<not> list_all is_digit ds then Inl ErrSyntax
       else Inr (if hd s = CHR ''-'' then - digits_val ds else digits_val ds))"
    by (simp add: Atoi_fast_def Let_def ds)
  have "fits_int64 (decimal_value s)" if "list_all is_digit ds"
  proof -
    from s assms(2) have "length ds \<le> 18" by (auto simp: ds_def sign_stripped_def)
    then have "(10 :: int) ^ length ds \<le> 10 ^ 18" by (intro power_increasing) simp_all
    with digits_val_bound [OF that] have "digits_val ds < 10 ^ 18" by simp
    with digits_val_nonneg [OF that] show ?thesis by (simp add: v fits_int64_def)
  qed
  then show ?thesis by (auto simp: unfold sd v)
qed

lemma Atoi_Inr:
  "Atoi s = Inr n \<longleftrightarrow> signed_decimal s \<and> fits_int64 (decimal_value s) \<and> n = decimal_value s"
  using Atoi_fast_Inr [of s n] ParseInt_Inr [of s n] by (simp add: Atoi_def)

lemma Atoi_range: "Atoi s = Inr n \<Longrightarrow> fits_int64 n"
  by (simp add: Atoi_Inr)

lemma ParseUint_loop_error: "ParseUint_loop n ds = Inl e \<Longrightarrow> e = ErrSyntax \<or> e = ErrRange"
  by (induction ds arbitrary: n) (auto split: if_splits)

lemma Atoi_error: "Atoi s = Inl e \<Longrightarrow> e = ErrSyntax \<or> e = ErrRange"
proof -
  assume a: "Atoi s = Inl e"
  have u: "ParseUint ds = Inl e \<Longrightarrow> e = ErrSyntax \<or> e = ErrRange" for ds
    using ParseUint_loop_error [of 0 ds e] by (simp add: ParseUint_def split: if_splits)
  have "ParseInt s = Inl e \<Longrightarrow> e = ErrSyntax \<or> e = ErrRange"
    using u by (auto simp: ParseInt_def Let_def split: if_splits sum.splits)
  moreover have "Atoi_fast s = Inl e \<Longrightarrow> e = ErrSyntax \<or> e = ErrRange"
    by (auto simp: Atoi_fast_def Let_def split: if_splits)
  ultimately show ?thesis using a by (auto simp: Atoi_def split: if_splits)
qed

lemma Atoi_examples:
  "Atoi ''18446744073709551616x'' = Inl ErrRange"
  "Atoi ''1844674407370955161x'' = Inl ErrSyntax"
  "Atoi ''9223372036854775808'' = Inl ErrRange"
  "Atoi ''-9223372036854775808'' = Inr (- (2 ^ 63))"
  "Atoi ''+9223372036854775807'' = Inr (2 ^ 63 - 1)"
  "Atoi ''-'' = Inl ErrSyntax"
  "Atoi [] = Inl ErrSyntax"
  "Atoi ''1_000'' = Inl ErrSyntax"
  "Atoi ''007'' = Inr 7"
  by code_simp+
text \<open>
  The rendering \<^const>\<open>Itoa\<close> of an integer is its canonical decimal text, and a
  canonical decimal text is the rendering of its value.
\<close>

lemma show_nat_no_sign:
  assumes "0 \<le> n"
  shows "hd (show_nat n) \<noteq> CHR ''+''" and "hd (show_nat n) \<noteq> CHR ''-''"
proof -
  from show_nat_digits [OF assms] show_nat_nonempty [of n] have "is_digit (hd (show_nat n))"
    by (cases "show_nat n") auto
  then show "hd (show_nat n) \<noteq> CHR ''+''" and "hd (show_nat n) \<noteq> CHR ''-''"
    using not_digit_sign by auto
qed

lemma digit_val_zero: "is_digit c \<Longrightarrow> digit_val c = 0 \<longleftrightarrow> c = CHR ''0''"
proof -
  assume c: "is_digit c"
  have z: "digit_char 0 = CHR ''0''" "digit_val (CHR ''0'') = 0" by code_simp+
  from digit_char_digit_val [OF c] z show ?thesis by auto
qed

lemma show_nat_zero: "show_nat 0 = ''0''"
  by code_simp

lemma show_nat_no_leading_zero: "0 < n \<Longrightarrow> hd (show_nat n) \<noteq> CHR ''0''"
proof (induction n rule: show_nat.induct)
  case (1 n)
  show ?case
  proof (cases "n < 10")
    case True
    with 1(2) have "digit_val (digit_char n) = n" "is_digit (digit_char n)"
      by (simp_all add: digit_val_digit_char is_digit_digit_char)
    with 1(2) have "digit_char n \<noteq> CHR ''0''" using digit_val_zero [of "digit_char n"] by auto
    with True show ?thesis by (simp add: show_nat_small)
  next
    case False
    then have "0 < n div 10" by simp
    with 1(1) False have "hd (show_nat (n div 10)) \<noteq> CHR ''0''" by simp
    with False show_nat_nonempty [of "n div 10"] show ?thesis
      by (subst show_nat.simps) simp
  qed
qed

lemma digits_val_pos:
  assumes "ds \<noteq> []" and "list_all is_digit ds" and "hd ds \<noteq> CHR ''0''"
  shows "0 < digits_val ds"
proof -
  from assms(1) obtain c cs where ds: "ds = c # cs" by (cases ds) auto
  with assms have c: "is_digit c" "c \<noteq> CHR ''0''" and cs: "list_all is_digit cs" by simp_all
  from c digit_val_range [of c] digit_val_zero [of c] have "0 < digit_val c" by simp
  moreover from this cs
  have "digit_val c \<le> foldl (\<lambda>n c. n * 10 + digit_val c) (digit_val c) cs"
    by (intro foldl_digits_ge) simp_all
  ultimately show ?thesis by (simp add: ds digits_val_def)
qed

lemma show_nat_digits_val:
  "ds \<noteq> [] \<Longrightarrow> list_all is_digit ds \<Longrightarrow> (hd ds = CHR ''0'' \<longrightarrow> ds = ''0'') \<Longrightarrow>
   show_nat (digits_val ds) = ds"
proof (induction ds rule: rev_induct)
  case Nil
  then show ?case by simp
next
  case (snoc c ds)
  then have c: "is_digit c" and ds: "list_all is_digit ds" by simp_all
  from digit_val_range [OF c] have d: "0 \<le> digit_val c" "digit_val c < 10" by simp_all
  show ?case
  proof (cases "ds = []")
    case True
    with c d show ?thesis
      by (simp add: digits_val_def show_nat_small digit_char_digit_val)
  next
    case False
    with snoc.prems(3) have nz: "hd ds \<noteq> CHR ''0''" by auto
    with snoc.IH False ds have ih: "show_nat (digits_val ds) = ds" by simp
    from digits_val_pos [OF False ds nz] have pos: "0 < digits_val ds" .
    then have "show_nat (digits_val ds * 10 + digit_val c)
        = show_nat (digits_val ds) @ [digit_char (digit_val c)]"
      using d by (simp add: show_nat_step)
    with ih c show ?thesis by (simp add: digits_val_snoc digit_char_digit_val)
  qed
qed

lemma Itoa_decimal: "signed_decimal (Itoa n)" "decimal_value (Itoa n) = n"
proof -
  show "signed_decimal (Itoa n)"
  proof (cases "n < 0")
    case True
    then show ?thesis
      using show_nat_nonempty [of "- n"] show_nat_digits [of "- n"]
      by (simp add: Itoa_def signed_decimal_def sign_stripped_def)
  next
    case False
    then show ?thesis
      using show_nat_nonempty [of n] show_nat_digits [of n] show_nat_no_sign [of n]
      by (simp add: Itoa_def signed_decimal_def sign_stripped_def)
  qed
  show "decimal_value (Itoa n) = n"
  proof (cases "n < 0")
    case True
    then show ?thesis
      using digits_val_show_nat [of "- n"]
      by (simp add: Itoa_def decimal_value_def sign_stripped_def)
  next
    case False
    then show ?thesis
      using show_nat_nonempty [of n] digits_val_show_nat [of n] show_nat_no_sign [of n]
      by (simp add: Itoa_def decimal_value_def sign_stripped_def)
  qed
qed

lemma Itoa_canonical: "canonical_decimal (Itoa n)"
proof -
  consider (neg) "n < 0" | (zero) "n = 0" | (pos) "0 < n" by linarith
  then show ?thesis
  proof cases
    case neg
    then have "hd (show_nat (- n)) \<noteq> CHR ''0''" by (simp add: show_nat_no_leading_zero)
    with neg show ?thesis
      using Itoa_decimal(1) [of n] by (simp add: canonical_decimal_def Itoa_def sign_stripped_def)
  next
    case zero
    then show ?thesis
      using Itoa_decimal(1) [of n] by (simp add: canonical_decimal_def Itoa_def show_nat_zero)
  next
    case pos
    then have "hd (show_nat n) \<noteq> CHR ''0''" by (simp add: show_nat_no_leading_zero)
    with pos show ?thesis
      using Itoa_decimal(1) [of n] show_nat_no_sign [of n] show_nat_nonempty [of n]
      by (simp add: canonical_decimal_def Itoa_def sign_stripped_def)
  qed
qed

lemma canonical_Itoa:
  assumes "canonical_decimal t"
  shows "Itoa (decimal_value t) = t"
proof -
  define ds where "ds = sign_stripped t"
  from assms have ds: "ds \<noteq> []" "list_all is_digit ds"
    and plus: "hd t \<noteq> CHR ''+''" and zero: "hd ds = CHR ''0'' \<longrightarrow> t = ''0''"
    by (simp_all add: canonical_decimal_def signed_decimal_def ds_def)
  from ds(1) have t: "t \<noteq> []" by (auto simp: ds_def sign_stripped_def)
  show ?thesis
  proof (cases "hd t = CHR ''-''")
    case True
    with t have t': "t = CHR ''-'' # ds" by (cases t) (auto simp: ds_def sign_stripped_def)
    with zero have nz: "hd ds \<noteq> CHR ''0''" by auto
    from digits_val_pos [OF ds nz] have pos: "0 < digits_val ds" .
    from nz have "show_nat (digits_val ds) = ds" by (intro show_nat_digits_val ds) simp
    moreover from True t have "decimal_value t = - digits_val ds"
      by (simp add: decimal_value_def ds_def)
    ultimately show ?thesis using pos t' by (simp add: Itoa_def)
  next
    case False
    with plus t have same: "ds = t" by (simp add: ds_def sign_stripped_def)
    with zero have "hd ds = CHR ''0'' \<longrightarrow> ds = ''0''" by simp
    then have "show_nat (digits_val ds) = ds" by (intro show_nat_digits_val ds)
    moreover from False have "decimal_value t = digits_val ds"
      by (simp add: decimal_value_def ds_def)
    ultimately show ?thesis using digits_val_nonneg [OF ds(2)] same by (simp add: Itoa_def)
  qed
qed

lemma Atoi_Itoa:
  assumes "fits_int64 n"
  shows "Atoi (Itoa n) = Inr n"
  using assms by (simp add: Atoi_Inr Itoa_decimal)

lemma show_nat_no_comma: "0 \<le> m \<Longrightarrow> CHR '','' \<notin> set (show_nat m)"
  using show_nat_digits [of m] not_digit_sign(3) by (auto simp: list_all_iff)

lemma strip_commas_Itoa: "strip_commas (Itoa n) = Itoa n"
proof -
  have "CHR '','' \<notin> set (Itoa n)"
  proof (cases "n < 0")
    case True
    then show ?thesis using show_nat_no_comma [of "- n"] by (simp add: Itoa_def)
  next
    case False
    then show ?thesis using show_nat_no_comma [of n] by (simp add: Itoa_def)
  qed
  then show ?thesis
    by (auto simp: strip_commas_def filter_id_conv)
qed

text \<open>
  The Integer rule accepts a text exactly when, all commas removed, it is a base-10 signed
  integer that fits 64 bits, and then returns the rendering of its value.
\<close>

lemma parseInt_Inr:
  "parseInt s = Inr out \<longleftrightarrow>
     signed_decimal (strip_commas s) \<and> fits_int64 (decimal_value (strip_commas s))
     \<and> out = Itoa (decimal_value (strip_commas s))"
proof (cases "Atoi (strip_commas s)")
  case (Inl e)
  with Atoi_Inr [of "strip_commas s" "decimal_value (strip_commas s)"] show ?thesis
    by (auto simp: parseInt_def)
next
  case (Inr n)
  with Atoi_Inr [of "strip_commas s" n] show ?thesis
    by (auto simp: parseInt_def)
qed

lemma parseInt_accepts:
  "\<not> isl (parseInt s) \<longleftrightarrow>
     signed_decimal (strip_commas s) \<and> fits_int64 (decimal_value (strip_commas s))"
proof -
  have "\<not> isl (parseInt s) \<longleftrightarrow> (\<exists>out. parseInt s = Inr out)"
    by (cases "parseInt s") simp_all
  then show ?thesis by (simp add: parseInt_Inr)
qed

lemma parseInt_fixed:
  assumes "canonical_decimal t" and "fits_int64 (decimal_value t)"
  shows "parseInt t = Inr t"
proof -
  from canonical_Itoa [OF assms(1)] have t: "Itoa (decimal_value t) = t" .
  from strip_commas_Itoa [of "decimal_value t"] t have "strip_commas t = t" by simp
  with assms t show ?thesis by (simp add: parseInt_Inr canonical_decimal_def)
qed

lemma parseInt_canonical: "parseInt s = Inr out \<Longrightarrow> parseInt out = Inr out"
proof -
  assume "parseInt s = Inr out"
  then have "fits_int64 (decimal_value (strip_commas s))"
    and out: "out = Itoa (decimal_value (strip_commas s))"
    by (simp_all add: parseInt_Inr)
  then show ?thesis
    using Itoa_canonical [of "decimal_value (strip_commas s)"]
    by (intro parseInt_fixed) (simp_all add: Itoa_decimal)
qed

text \<open>
  Claim C8. The Integer rule removes every comma and gives what is left to
  \<^const>\<open>Atoi\<close>. It accepts the text exactly when what is left is a base-10 signed
  integer (an optional sign, then one or more decimal digits and nothing else) whose
  value fits a signed 64-bit integer; every other text is rejected, among them the empty
  text, a text of commas only, letters, a fractional part, an exponent, a space, an
  underscore and \<open>2\<^sup>6\<^sup>3\<close>. The success value is the canonical decimal text of that
  value: the rendering \<^const>\<open>Itoa\<close> of it, which has no plus sign and no leading zero,
  has the same value, reads back as the same integer, and is mapped to itself by the
  rule, as is every canonical decimal text within 64 bits. The column \<^verbatim>\<open>1\<close>,
  \<^verbatim>\<open>2,000\<close>, \<^verbatim>\<open>3\<close> resolves to \<^verbatim>\<open>integer not null\<close>, and its values are
  normalised to \<^verbatim>\<open>1\<close>, \<^verbatim>\<open>2000\<close>, \<^verbatim>\<open>3\<close>.
\<close>

theorem parseInt_rule:
  "parseInt s = (case Atoi (filter (\<lambda>c. c \<noteq> CHR '','') s) of
                   Inl err \<Rightarrow> Inl err | Inr n \<Rightarrow> Inr (Itoa n))
   \<and> (\<not> isl (parseInt s) \<longleftrightarrow>
        signed_decimal (filter (\<lambda>c. c \<noteq> CHR '','') s)
        \<and> - (2 ^ 63) \<le> decimal_value (filter (\<lambda>c. c \<noteq> CHR '','') s)
        \<and> decimal_value (filter (\<lambda>c. c \<noteq> CHR '','') s) < 2 ^ 63)
   \<and> (parseInt s = Inr out \<longrightarrow>
        canonical_decimal out
        \<and> decimal_value out = decimal_value (filter (\<lambda>c. c \<noteq> CHR '','') s))
   \<and> (canonical_decimal t \<and> - (2 ^ 63) \<le> decimal_value t \<and> decimal_value t < 2 ^ 63 \<longrightarrow>
        parseInt t = Inr t)
   \<and> (- (2 ^ 63) \<le> n \<and> n < 2 ^ 63 \<longrightarrow> Atoi (Itoa n) = Inr n)
   \<and> (parseInt s = Inr out \<longrightarrow> parseInt out = Inr out)
   \<and> isl (parseInt []) \<and> isl (parseInt '','') \<and> isl (parseInt ''abc'')
   \<and> isl (parseInt ''1.5'') \<and> isl (parseInt ''1.0'') \<and> isl (parseInt ''1e3'')
   \<and> isl (parseInt '' 1'') \<and> isl (parseInt ''1_000'') \<and> isl (parseInt ''-'')
   \<and> isl (parseInt ''9,223,372,036,854,775,808'')
   \<and> parseInt ''-9,223,372,036,854,775,808'' = Inr ''-9223372036854775808''
   \<and> parseInt ''+007'' = Inr ''7''
   \<and> SqlType (observe [''1'', ''2,000'', ''3''] newFieldType) = ''integer not null''
   \<and> map (Parse (observe [''1'', ''2,000'', ''3''] newFieldType)) [''1'', ''2,000'', ''3'']
       = [Inr ''1'', Inr ''2000'', Inr ''3'']"
proof -
  have 1: "parseInt s = (case Atoi (filter (\<lambda>c. c \<noteq> CHR '','') s) of
                       Inl err \<Rightarrow> Inl err | Inr n \<Rightarrow> Inr (Itoa n))"
    by (simp add: parseInt_def strip_commas_def)
  have 2: "\<not> isl (parseInt s) \<longleftrightarrow>
        signed_decimal (filter (\<lambda>c. c \<noteq> CHR '','') s)
        \<and> - (2 ^ 63) \<le> decimal_value (filter (\<lambda>c. c \<noteq> CHR '','') s)
        \<and> decimal_value (filter (\<lambda>c. c \<noteq> CHR '','') s) < 2 ^ 63"
    using parseInt_accepts [of s] by (simp add: strip_commas_def fits_int64_def)
  have 3: "canonical_decimal out
        \<and> decimal_value out = decimal_value (filter (\<lambda>c. c \<noteq> CHR '','') s)"
    if "parseInt s = Inr out"
    using that Itoa_canonical [of "decimal_value (strip_commas s)"]
    by (simp add: parseInt_Inr Itoa_decimal strip_commas_def)
  have 4: "parseInt t = Inr t"
    if "canonical_decimal t \<and> - (2 ^ 63) \<le> decimal_value t \<and> decimal_value t < 2 ^ 63"
    using that by (intro parseInt_fixed) (simp_all add: fits_int64_def)
  have 5: "Atoi (Itoa n) = Inr n" if "- (2 ^ 63) \<le> n \<and> n < 2 ^ 63"
    using that by (simp add: Atoi_Itoa fits_int64_def)
  have 6: "parseInt out = Inr out" if "parseInt s = Inr out"
    using that by (rule parseInt_canonical)
  have 7: "isl (parseInt []) \<and> isl (parseInt '','') \<and> isl (parseInt ''abc'')
   \<and> isl (parseInt ''1.5'') \<and> isl (parseInt ''1.0'') \<and> isl (parseInt ''1e3'')
   \<and> isl (parseInt '' 1'') \<and> isl (parseInt ''1_000'') \<and> isl (parseInt ''-'')
   \<and> isl (parseInt ''9,223,372,036,854,775,808'')"
    by code_simp
  have 8: "parseInt ''-9,223,372,036,854,775,808'' = Inr ''-9223372036854775808''"
    by code_simp
  have 9: "parseInt ''+007'' = Inr ''7''"
    by code_simp
  have 10: "SqlType (observe [''1'', ''2,000'', ''3''] newFieldType) = ''integer not null''"
    by code_simp
  have 11: "map (Parse (observe [''1'', ''2,000'', ''3''] newFieldType)) [''1'', ''2,000'', ''3'']
       = [Inr ''1'', Inr ''2000'', Inr ''3'']"
    by code_simp
  from 1 2 3 4 5 6 7 8 9 10 11 show ?thesis by blast
qed

theorem parseInt_rule_witness:
  "\<not> isl (parseInt ''-1,234,567'')
   \<and> signed_decimal (filter (\<lambda>c. c \<noteq> CHR '','') ''-1,234,567'')
   \<and> - (2 ^ 63) \<le> decimal_value (filter (\<lambda>c. c \<noteq> CHR '','') ''-1,234,567'')
   \<and> decimal_value (filter (\<lambda>c. c \<noteq> CHR '','') ''-1,234,567'') < 2 ^ 63
   \<and> parseInt ''-1,234,567'' = Inr ''-1234567''
   \<and> canonical_decimal ''-1234567''
   \<and> decimal_value ''-1234567'' = decimal_value (filter (\<lambda>c. c \<noteq> CHR '','') ''-1,234,567'')
   \<and> - (2 ^ 63) \<le> decimal_value ''-1234567'' \<and> decimal_value ''-1234567'' < 2 ^ 63
   \<and> parseInt ''-1234567'' = Inr ''-1234567''
   \<and> - (2 ^ 63) \<le> (- 1234567 :: int) \<and> (- 1234567 :: int) < 2 ^ 63
   \<and> Atoi (Itoa (- 1234567)) = Inr (- 1234567)
   \<and> isl (parseInt ''1.5'') \<and> \<not> signed_decimal (filter (\<lambda>c. c \<noteq> CHR '','') ''1.5'')"
proof -
  have a: "parseInt ''-1,234,567'' = Inr ''-1234567''" by code_simp
  have b: "- (2 ^ 63) \<le> (- 1234567 :: int) \<and> (- 1234567 :: int) < 2 ^ 63" by simp
  have c: "- (2 ^ 63) \<le> decimal_value ''-1234567'' \<and> decimal_value ''-1234567'' < 2 ^ 63"
    by code_simp
  have d: "\<not> signed_decimal (filter (\<lambda>c. c \<noteq> CHR '','') ''1.5'')" by code_simp
  have e: "\<not> isl (parseInt ''-1,234,567'')" by code_simp
  show ?thesis
    using a b c d e
      parseInt_rule [of "''-1,234,567''" "''-1234567''" "''-1234567''" "- 1234567"]
      parseInt_rule [of "''1.5''" "''-1234567''" "''-1234567''" "- 1234567"]
    by blast
qed


subsection \<open>Column identifiers\<close>

text \<open>
  An identifier is valid when it is not empty, holds only lowercase letters, digits and
  underscores, and neither starts nor ends with an underscore. The base name of a header
  is its slug, or \<^verbatim>\<open>x\<close> when the slug is empty.
\<close>

definition ident_char :: "char \<Rightarrow> bool" where
  "ident_char c = (is_lower_alnum c \<or> c = CHR ''_'')"

definition valid_ident :: "string \<Rightarrow> bool" where
  "valid_ident n = (n \<noteq> [] \<and> list_all ident_char n \<and> hd n \<noteq> CHR ''_'' \<and> last n \<noteq> CHR ''_'')"

definition base_name :: "string \<Rightarrow> string" where
  "base_name col = (if slug col = [] then ''x'' else slug col)"

lemma replace_punct_chars: "list_all ident_char (replace_punct r s)"
  by (induction r s rule: replace_punct.induct) (auto simp: ident_char_def)

lemma trim_underscores_set: "set (trim_underscores s) \<subseteq> set s"
proof -
  have "set (trim_underscores s) \<subseteq> set (dropWhile (\<lambda>c. c = CHR ''_'') s)"
    unfolding trim_underscores_def set_rev
    using set_dropWhileD [of _ "\<lambda>c. c = CHR ''_''" "rev (dropWhile (\<lambda>c. c = CHR ''_'') s)"]
    by auto
  also have "\<dots> \<subseteq> set s"
    using set_dropWhileD [of _ "\<lambda>c. c = CHR ''_''" s] by auto
  finally show ?thesis .
qed

lemma trim_underscores_ends:
  assumes "trim_underscores s \<noteq> []"
  shows "hd (trim_underscores s) \<noteq> CHR ''_''" and "last (trim_underscores s) \<noteq> CHR ''_''"
proof -
  let ?P = "\<lambda>c. c = CHR ''_''"
  let ?a = "dropWhile ?P s"
  let ?b = "dropWhile ?P (rev ?a)"
  have t: "trim_underscores s = rev ?b" by (simp add: trim_underscores_def)
  with assms have b: "?b \<noteq> []" by simp
  then have hb: "\<not> ?P (hd ?b)" by (rule hd_dropWhile)
  from b have "last (rev ?b) = hd ?b" by (simp add: last_rev)
  with hb t show "last (trim_underscores s) \<noteq> CHR ''_''" by simp
  have a: "?a \<noteq> []"
  proof
    assume e: "?a = []"
    have "?b = []" unfolding e by simp
    with b show False by contradiction
  qed
  then have ha: "\<not> ?P (hd ?a)" by (rule hd_dropWhile)
  from a have "last (rev ?a) = hd ?a" by (simp add: last_rev)
  with ha have "\<not> ?P (last (rev ?a))" by simp
  moreover have "rev ?a = takeWhile ?P (rev ?a) @ ?b"
    by simp
  then have "last (rev ?a) = last ?b"
    using b by (metis last_appendR)
  ultimately have "last ?b = hd ?a" using \<open>last (rev ?a) = hd ?a\<close> by simp
  moreover from b have "hd (rev ?b) = last ?b" by (simp add: hd_rev)
  ultimately show "hd (trim_underscores s) \<noteq> CHR ''_''" using ha t by simp
qed

lemma slug_chars: "list_all ident_char (slug s)"
  using replace_punct_chars [of False "ToLower s"] trim_underscores_set [of "replace_punct False (ToLower s)"]
  by (auto simp: slug_def list_all_iff)

lemma valid_ident_x: "valid_ident ''x''"
  by (simp add: valid_ident_def ident_char_def is_lower_alnum_def is_digit_def)

lemma valid_ident_base_name: "valid_ident (base_name col)"
proof (cases "slug col = []")
  case True
  then show ?thesis by (simp add: base_name_def valid_ident_x)
next
  case False
  then have "trim_underscores (replace_punct False (ToLower col)) \<noteq> []"
    by (simp add: slug_def)
  from trim_underscores_ends [OF this] False show ?thesis
    by (simp add: base_name_def valid_ident_def slug_chars) (simp add: slug_def)
qed

lemma is_digit_ident_char: "is_digit c \<Longrightarrow> ident_char c"
  by (simp add: ident_char_def is_lower_alnum_def)

lemma underscore_not_digit: "\<not> is_digit (CHR ''_'')"
  by (simp add: is_digit_def)

lemma valid_ident_with_suffix:
  assumes "valid_ident sl"
  shows "valid_ident (with_suffix sl i)"
proof -
  have d: "list_all is_digit (show_nat (int i))" by (simp add: show_nat_digits)
  have ne: "show_nat (int i) \<noteq> []" by (rule show_nat_nonempty)
  from d ne have "is_digit (last (show_nat (int i)))"
    by (auto simp: list_all_iff)
  then have l: "last (show_nat (int i)) \<noteq> CHR ''_''"
    using underscore_not_digit by auto
  from d have "list_all ident_char (show_nat (int i))"
    by (auto simp: list_all_iff is_digit_ident_char)
  with assms l ne show ?thesis
    by (auto simp: valid_ident_def with_suffix_def ident_char_def)
qed

lemma find_suffix_spec:
  "\<exists>k\<ge>i. find_suffix seen sl i = with_suffix sl k \<and> with_suffix sl k \<notin> set seen
      \<and> (\<forall>j. i \<le> j \<and> j < k \<longrightarrow> with_suffix sl j \<in> set seen)"
proof (induction seen sl i rule: find_suffix.induct)
  case (1 seen sl i)
  show ?case
  proof (cases "with_suffix sl i \<in> set seen")
    case False
    then have "find_suffix seen sl i = with_suffix sl i"
      by (subst find_suffix.simps) simp
    with False show ?thesis by (intro exI [of _ i]) auto
  next
    case True
    from "1.IH" [OF True] obtain k where k: "Suc i \<le> k"
      "find_suffix seen sl (Suc i) = with_suffix sl k" "with_suffix sl k \<notin> set seen"
      "\<forall>j. Suc i \<le> j \<and> j < k \<longrightarrow> with_suffix sl j \<in> set seen"
      by blast
    from True have "find_suffix seen sl i = find_suffix seen sl (Suc i)"
      by (subst find_suffix.simps) simp
    moreover have "\<forall>j. i \<le> j \<and> j < k \<longrightarrow> with_suffix sl j \<in> set seen"
    proof (intro allI impI)
      fix j assume "i \<le> j \<and> j < k"
      then show "with_suffix sl j \<in> set seen"
        using True k(4) by (cases "j = i") auto
    qed
    ultimately show ?thesis using k by (intro exI [of _ k]) simp
  qed
qed

text \<open>The name given to a column, from the set of the names given before it.\<close>

definition given :: "string list \<Rightarrow> string \<Rightarrow> string" where
  "given seen col =
    (if base_name col \<in> set seen then find_suffix seen (base_name col) 2 else base_name col)"

lemma assign_names_Cons:
  "assign_names seen (col # cols) = given seen col # assign_names (given seen col # seen) cols"
  by (simp add: given_def base_name_def Let_def)

lemma given_fresh: "given seen col \<notin> set seen"
  using find_suffix_spec [of 2 seen "base_name col"] by (auto simp: given_def)

lemma given_valid: "valid_ident (given seen col)"
  using find_suffix_spec [of 2 seen "base_name col"] valid_ident_base_name [of col]
  by (auto simp: given_def intro: valid_ident_with_suffix)

lemma given_spec:
  "(base_name col \<notin> set seen \<longrightarrow> given seen col = base_name col)
   \<and> (base_name col \<in> set seen \<longrightarrow>
        (\<exists>k\<ge>2. given seen col = with_suffix (base_name col) k
           \<and> with_suffix (base_name col) k \<notin> set seen
           \<and> (\<forall>j. 2 \<le> j \<and> j < k \<longrightarrow> with_suffix (base_name col) j \<in> set seen)))"
  using find_suffix_spec [of 2 seen "base_name col"] by (simp add: given_def)

lemma given_cong: "set seen = set seen' \<Longrightarrow> given seen col = given seen' col"
proof -
  assume s: "set seen = set seen'"
  show ?thesis
  proof (cases "base_name col \<in> set seen")
    case False
    with s show ?thesis by (simp add: given_def)
  next
    case True
    let ?b = "base_name col"
    from find_suffix_spec [of 2 seen ?b] obtain k where k: "2 \<le> k"
      "find_suffix seen ?b 2 = with_suffix ?b k" "with_suffix ?b k \<notin> set seen"
      "\<forall>j. 2 \<le> j \<and> j < k \<longrightarrow> with_suffix ?b j \<in> set seen" by blast
    from find_suffix_spec [of 2 seen' ?b] obtain k' where k': "2 \<le> k'"
      "find_suffix seen' ?b 2 = with_suffix ?b k'" "with_suffix ?b k' \<notin> set seen'"
      "\<forall>j. 2 \<le> j \<and> j < k' \<longrightarrow> with_suffix ?b j \<in> set seen'" by blast
    have "k = k'"
    proof (rule ccontr)
      assume "k \<noteq> k'"
      then consider "k < k'" | "k' < k" by linarith
      then show False
      proof cases
        case 1
        with k(1) k'(4) have "with_suffix ?b k \<in> set seen'" by simp
        with k(3) s show False by simp
      next
        case 2
        with k'(1) k(4) have "with_suffix ?b k' \<in> set seen" by simp
        with k'(3) s show False by simp
      qed
    qed
    with k(2) k'(2) True s show ?thesis by (simp add: given_def)
  qed
qed

lemma length_assign_names: "length (assign_names seen cols) = length cols"
  by (induction cols arbitrary: seen) (simp_all add: assign_names_Cons del: assign_names.simps(2))

lemma assign_names_fresh: "set (assign_names seen cols) \<inter> set seen = {}"
proof (induction cols arbitrary: seen)
  case Nil
  show ?case by simp
next
  case (Cons col cols)
  from Cons [of "given seen col # seen"] given_fresh [of seen col]
  show ?case by (auto simp: assign_names_Cons simp del: assign_names.simps(2))
qed

lemma assign_names_distinct: "distinct (assign_names seen cols)"
proof (induction cols arbitrary: seen)
  case Nil
  show ?case by simp
next
  case (Cons col cols)
  from assign_names_fresh [of "given seen col # seen" cols] Cons [of "given seen col # seen"]
  show ?case by (auto simp: assign_names_Cons simp del: assign_names.simps(2))
qed

lemma assign_names_valid: "list_all valid_ident (assign_names seen cols)"
  by (induction cols arbitrary: seen)
    (simp_all add: assign_names_Cons given_valid del: assign_names.simps(2))

lemma assign_names_nth:
  "i < length cols \<Longrightarrow>
    assign_names seen cols ! i = given (rev (take i (assign_names seen cols)) @ seen) (cols ! i)"
proof (induction cols arbitrary: seen i)
  case Nil
  then show ?case by simp
next
  case (Cons col cols)
  show ?case
  proof (cases i)
    case 0
    then show ?thesis by (simp add: assign_names_Cons del: assign_names.simps(2))
  next
    case (Suc i')
    with Cons.prems have "i' < length cols" by simp
    from Cons.IH [OF this, of "given seen col # seen"] Suc
    show ?thesis by (simp add: assign_names_Cons del: assign_names.simps(2))
  qed
qed

lemma columnNames_nth:
  assumes "i < length header"
  shows "columnNames header ! i = given (take i (columnNames header)) (header ! i)"
proof -
  have "columnNames header ! i = given (rev (take i (columnNames header)) @ []) (header ! i)"
    unfolding columnNames_def by (rule assign_names_nth [OF assms])
  also have "\<dots> = given (take i (columnNames header)) (header ! i)"
    by (rule given_cong) simp
  finally show ?thesis .
qed

text \<open>
  Claim C9. For every header row the identifiers are as many as the headers and pairwise
  distinct; each is not empty, holds only lowercase letters, digits and underscores, and
  neither starts nor ends with an underscore. The columns are named from left to right:
  the base name of a column is its slug, or the literal \<^verbatim>\<open>x\<close> when the slug is empty;
  a column whose base name no column to its left was given receives it as it is; on a
  collision with a name given to a column to its left, it receives the base name with
  the suffix \<^verbatim>\<open>_k\<close> for the first \<open>k\<close>, counting up from 2, whose suffixed name is
  free (so a second header with an empty slug is named \<^verbatim>\<open>x_2\<close>). The headers
  \<^verbatim>\<open>Name\<close>, \<^verbatim>\<open>name\<close>, \<^verbatim>\<open>Name\<close> are named \<^verbatim>\<open>name\<close>, \<^verbatim>\<open>name_2\<close>,
  \<^verbatim>\<open>name_3\<close>.
\<close>

theorem columnNames_spec:
  "length (columnNames header) = length header
   \<and> distinct (columnNames header)
   \<and> (\<forall>n\<in>set (columnNames header).
         n \<noteq> [] \<and> (\<forall>c\<in>set n. is_lower_alnum c \<or> c = CHR ''_'')
         \<and> hd n \<noteq> CHR ''_'' \<and> last n \<noteq> CHR ''_'')
   \<and> (\<forall>i<length header.
         let b = (if slug (header ! i) = [] then ''x'' else slug (header ! i));
             earlier = set (take i (columnNames header))
         in (b \<notin> earlier \<longrightarrow> columnNames header ! i = b)
            \<and> (b \<in> earlier \<longrightarrow>
                 (\<exists>k\<ge>2. columnNames header ! i = with_suffix b k
                    \<and> with_suffix b k \<notin> earlier
                    \<and> (\<forall>j. 2 \<le> j \<and> j < k \<longrightarrow> with_suffix b j \<in> earlier))))
   \<and> columnNames [''Name'', ''name'', ''Name''] = [''name'', ''name_2'', ''name_3'']"
proof (intro conjI)
  show "length (columnNames header) = length header"
    by (simp add: columnNames_def length_assign_names)
  show "distinct (columnNames header)"
    by (simp add: columnNames_def assign_names_distinct)
  show "\<forall>n\<in>set (columnNames header).
         n \<noteq> [] \<and> (\<forall>c\<in>set n. is_lower_alnum c \<or> c = CHR ''_'')
         \<and> hd n \<noteq> CHR ''_'' \<and> last n \<noteq> CHR ''_''"
    using assign_names_valid [of "[]" header]
    by (auto simp: columnNames_def list_all_iff valid_ident_def ident_char_def)
  show "\<forall>i<length header.
         let b = (if slug (header ! i) = [] then ''x'' else slug (header ! i));
             earlier = set (take i (columnNames header))
         in (b \<notin> earlier \<longrightarrow> columnNames header ! i = b)
            \<and> (b \<in> earlier \<longrightarrow>
                 (\<exists>k\<ge>2. columnNames header ! i = with_suffix b k
                    \<and> with_suffix b k \<notin> earlier
                    \<and> (\<forall>j. 2 \<le> j \<and> j < k \<longrightarrow> with_suffix b j \<in> earlier)))"
  proof (intro allI impI)
    fix i assume i: "i < length header"
    show "let b = (if slug (header ! i) = [] then ''x'' else slug (header ! i));
             earlier = set (take i (columnNames header))
         in (b \<notin> earlier \<longrightarrow> columnNames header ! i = b)
            \<and> (b \<in> earlier \<longrightarrow>
                 (\<exists>k\<ge>2. columnNames header ! i = with_suffix b k
                    \<and> with_suffix b k \<notin> earlier
                    \<and> (\<forall>j. 2 \<le> j \<and> j < k \<longrightarrow> with_suffix b j \<in> earlier)))"
      unfolding Let_def columnNames_nth [OF i] base_name_def [symmetric]
      by (rule given_spec)
  qed
  show "columnNames [''Name'', ''name'', ''Name''] = [''name'', ''name_2'', ''name_3'']"
    by code_simp
qed

theorem columnNames_spec_witness:
  "length (columnNames [''Name'', ''name'', []]) = 3
   \<and> distinct (columnNames [''Name'', ''name'', []])
   \<and> ''name_2'' \<in> set (columnNames [''Name'', ''name'', []])
   \<and> ''name_2'' \<noteq> [] \<and> list_all (\<lambda>c. is_lower_alnum c \<or> c = CHR ''_'') ''name_2''
   \<and> hd ''name_2'' \<noteq> CHR ''_'' \<and> last ''name_2'' \<noteq> CHR ''_''
   \<and> (1::nat) < length [''Name'', ''name'', []]
   \<and> ''name'' \<in> set (take 1 (columnNames [''Name'', ''name'', []]))
   \<and> (\<exists>k\<ge>2. columnNames [''Name'', ''name'', []] ! 1 = with_suffix ''name'' k
         \<and> with_suffix ''name'' k \<notin> set (take 1 (columnNames [''Name'', ''name'', []]))
         \<and> (\<forall>j. 2 \<le> j \<and> j < k \<longrightarrow>
               with_suffix ''name'' j \<in> set (take 1 (columnNames [''Name'', ''name'', []]))))
   \<and> (2::nat) < length [''Name'', ''name'', []]
   \<and> ''x'' \<notin> set (take 2 (columnNames [''Name'', ''name'', []]))
   \<and> columnNames [''Name'', ''name'', []] ! 2 = ''x''"
proof -
  let ?h = "[''Name'', ''name'', []]"
  have cn: "columnNames ?h = [''name'', ''name_2'', ''x'']" by code_simp
  have s1: "slug ''name'' = ''name''" and s2: "slug [] = []" by code_simp+
  note spec = columnNames_spec [of ?h]
  from spec have len: "length (columnNames ?h) = length ?h" by (rule conjunct1)
  from spec have dist: "distinct (columnNames ?h)"
    by (rule conjunct2 [THEN conjunct1])
  from spec have val: "\<forall>n\<in>set (columnNames ?h).
         n \<noteq> [] \<and> (\<forall>c\<in>set n. is_lower_alnum c \<or> c = CHR ''_'')
         \<and> hd n \<noteq> CHR ''_'' \<and> last n \<noteq> CHR ''_''"
    by (rule conjunct2 [THEN conjunct2, THEN conjunct1])
  from spec have pos: "\<forall>i<length ?h.
         let b = (if slug (?h ! i) = [] then ''x'' else slug (?h ! i));
             earlier = set (take i (columnNames ?h))
         in (b \<notin> earlier \<longrightarrow> columnNames ?h ! i = b)
            \<and> (b \<in> earlier \<longrightarrow>
                 (\<exists>k\<ge>2. columnNames ?h ! i = with_suffix b k
                    \<and> with_suffix b k \<notin> earlier
                    \<and> (\<forall>j. 2 \<le> j \<and> j < k \<longrightarrow> with_suffix b j \<in> earlier)))"
    by (rule conjunct2 [THEN conjunct2, THEN conjunct2, THEN conjunct1])
  have m: "''name_2'' \<in> set (columnNames ?h)" by (simp add: cn)
  from val m have v2: "''name_2'' \<noteq> [] \<and> (\<forall>c\<in>set ''name_2''. is_lower_alnum c \<or> c = CHR ''_'')
         \<and> hd ''name_2'' \<noteq> CHR ''_'' \<and> last ''name_2'' \<noteq> CHR ''_''"
    by (rule bspec)
  have i1: "(1::nat) < length ?h" and i2: "(2::nat) < length ?h" by simp_all
  have e1: "''name'' \<in> set (take 1 (columnNames ?h))" by (simp add: cn)
  have e2: "''x'' \<notin> set (take 2 (columnNames ?h))" by (simp add: cn)
  from pos [rule_format, OF i1] e1
  have p1: "\<exists>k\<ge>2. columnNames ?h ! 1 = with_suffix ''name'' k
         \<and> with_suffix ''name'' k \<notin> set (take 1 (columnNames ?h))
         \<and> (\<forall>j. 2 \<le> j \<and> j < k \<longrightarrow> with_suffix ''name'' j \<in> set (take 1 (columnNames ?h)))"
    by (simp add: Let_def s1)
  from pos [rule_format, OF i2] e2
  have p2: "columnNames ?h ! 2 = ''x''"
    by (simp add: Let_def s2)
  from len have l3: "length (columnNames ?h) = 3" by simp
  from v2 have v2': "''name_2'' \<noteq> [] \<and> list_all (\<lambda>c. is_lower_alnum c \<or> c = CHR ''_'') ''name_2''
         \<and> hd ''name_2'' \<noteq> CHR ''_'' \<and> last ''name_2'' \<noteq> CHR ''_''"
    unfolding list_all_iff .
  show ?thesis
    using l3 dist m v2' i1 e1 p1 i2 e2 p2 by blast
qed

subsection \<open>Acceptance\<close>

text \<open>
  A state accepts a value when the value is blank or passes the rule of every tag that
  the state still holds.
\<close>

definition accepts :: "fieldType \<Rightarrow> string \<Rightarrow> bool" where
  "accepts f v =
    (blank v \<or>
     ((Date f \<longrightarrow> \<not> isl (parseDate v)) \<and> (Int' f \<longrightarrow> \<not> isl (parseInt v)) \<and>
      (Float f \<longrightarrow> \<not> isl (parseFloat v)) \<and> (Percent f \<longrightarrow> \<not> isl (parsePercent v))))"

lemma accepts_Check_same: "accepts (Check v f) v"
  by (auto simp: accepts_def Check_fields)

lemma accepts_Check_mono: "accepts f v \<Longrightarrow> accepts (Check w f) v"
  by (auto simp: accepts_def Check_fields)

lemma accepts_observe_mono: "accepts f v \<Longrightarrow> accepts (observe ws f) v"
  by (induction ws arbitrary: f) (simp_all add: observe_Nil observe_Cons accepts_Check_mono)

lemma accepts_observe: "v \<in> set vs \<Longrightarrow> accepts (observe vs f) v"
proof (induction vs arbitrary: f)
  case Nil
  then show ?case by simp
next
  case (Cons w ws)
  show ?case
  proof (cases "v = w")
    case True
    then show ?thesis
      by (simp add: observe_Cons accepts_observe_mono accepts_Check_same)
  next
    case False
    with Cons show ?thesis by (simp add: observe_Cons)
  qed
qed

lemma Parse_blank: "blank v \<Longrightarrow> Parse f v = Inr []"
  by (simp add: Parse_def unsentinel_blank)

lemma Parse_not_blank:
  "\<not> blank v \<Longrightarrow>
    Parse f v =
      (if Date f then parseDate v else if Int' f then parseInt v
       else if Float f then parseFloat v else if Percent f then parsePercent v else Inr v)"
  by (simp add: Parse_def unsentinel_def blank_def)

lemma accepts_Parse: "accepts f v \<Longrightarrow> \<not> isl (Parse f v)"
  by (cases "blank v") (auto simp: Parse_blank Parse_not_blank accepts_def)

subsection \<open>The text a rule returns\<close>

text \<open>
  The Date rule returns the value followed by \<^verbatim>\<open>T00:00:00Z\<close>: the layout of
  \<^const>\<open>format_RFC3339\<close> pads year, month and day with zeros to the widths that
  \<^const>\<open>time_Parse\<close> read them in.
\<close>

lemma zero_pad_step:
  assumes "0 \<le> n" and "0 \<le> d" and "d < 10" and "0 < w"
  shows "zero_pad (Suc w) (n * 10 + d) = zero_pad w n @ [digit_char d]"
proof (cases "n = 0")
  case True
  have z: "digit_char 0 = CHR ''0''" by code_simp
  from \<open>0 < w\<close> obtain w' where w: "w = Suc w'" by (cases w) auto
  have "zero_pad (Suc w) d = replicate w (CHR ''0'') @ [digit_char d]"
    using assms by (simp add: zero_pad_def show_nat_small)
  moreover have "zero_pad w 0 = replicate w (CHR ''0'')"
    by (simp add: zero_pad_def show_nat_small z w replicate_append_same)
  ultimately show ?thesis using True by simp
next
  case False
  with assms show ?thesis
    by (simp add: zero_pad_def show_nat_step Suc_diff_le)
qed

lemma zero_pad_digits_val:
  "ds \<noteq> [] \<Longrightarrow> list_all is_digit ds \<Longrightarrow> zero_pad (length ds) (digits_val ds) = ds"
proof (induction ds rule: rev_induct)
  case Nil
  then show ?case by simp
next
  case (snoc c ds)
  then have c: "is_digit c" and ds: "list_all is_digit ds" by simp_all
  show ?case
  proof (cases "ds = []")
    case True
    with c show ?thesis
      using digit_val_range [of c] show_nat_step [of 0 "digit_val c"]
      by (simp add: zero_pad_def digits_val_def digit_char_digit_val)
  next
    case False
    with snoc.IH ds have ih: "zero_pad (length ds) (digits_val ds) = ds" by simp
    from False have w: "0 < length ds" by simp
    have "zero_pad (Suc (length ds)) (digits_val ds * 10 + digit_val c)
        = zero_pad (length ds) (digits_val ds) @ [digit_char (digit_val c)]"
      using digits_val_nonneg [OF ds] digit_val_range [OF c] w by (intro zero_pad_step) simp_all
    with ih c show ?thesis by (simp add: digits_val_snoc digit_char_digit_val)
  qed
qed

lemma time_Parse_shape:
  assumes "time_Parse s = Inr t"
  shows "\<exists>y1 y2 y3 y4 m1 m2 a1 a2.
    s = [y1, y2, y3, y4, CHR ''-'', m1, m2, CHR ''-'', a1, a2]
    \<and> list_all is_digit [y1, y2, y3, y4, m1, m2, a1, a2]
    \<and> t = (digits_val [y1, y2, y3, y4], digits_val [m1, m2], digits_val [a1, a2])"
  using assms unfolding time_Parse_def Let_def
  by (auto split: list.splits if_splits)

lemma parseDate_out:
  assumes "parseDate v = Inr out"
  shows "out = v @ ''T00:00:00Z''"
proof -
  from assms obtain t where t: "time_Parse v = Inr t" and out: "out = format_RFC3339 t"
    by (auto simp: parseDate_def split: sum.splits)
  from time_Parse_shape [OF t] obtain y1 y2 y3 y4 m1 m2 a1 a2 where
    v: "v = [y1, y2, y3, y4, CHR ''-'', m1, m2, CHR ''-'', a1, a2]"
    and d: "list_all is_digit [y1, y2, y3, y4, m1, m2, a1, a2]"
    and tt: "t = (digits_val [y1, y2, y3, y4], digits_val [m1, m2], digits_val [a1, a2])"
    by blast
  have "zero_pad 4 (digits_val [y1, y2, y3, y4]) = [y1, y2, y3, y4]"
    using d zero_pad_digits_val [of "[y1, y2, y3, y4]"] by (simp add: eval_nat_numeral)
  moreover have "zero_pad 2 (digits_val [m1, m2]) = [m1, m2]"
    using d zero_pad_digits_val [of "[m1, m2]"] by (simp add: eval_nat_numeral)
  moreover have "zero_pad 2 (digits_val [a1, a2]) = [a1, a2]"
    using d zero_pad_digits_val [of "[a1, a2]"] by (simp add: eval_nat_numeral)
  ultimately show ?thesis
    using out tt v by (simp add: format_RFC3339_def)
qed

text \<open>
  A text has six fraction digits when, after an optional minus sign, it is one or more
  digits, a point, and exactly six digits. \<^const>\<open>Sprintf_f\<close> returns such a text for
  every finite value whose mantissa is not negative, and \<^const>\<open>ParseFloat\<close> returns
  no other finite value.
\<close>

definition six_fraction_digits :: "string \<Rightarrow> bool" where
  "six_fraction_digits out =
    (let body = (if out \<noteq> [] \<and> hd out = CHR ''-'' then tl out else out);
         ip = take (length body - 7) body;
         fp = drop (length body - 7) body
     in ip \<noteq> [] \<and> list_all is_digit ip \<and> length fp = 7 \<and> hd fp = CHR ''.''
        \<and> list_all is_digit (tl fp))"

lemma round_half_even_nonneg: "0 \<le> num \<Longrightarrow> 0 < den \<Longrightarrow> 0 \<le> round_half_even num den"
  by (simp add: round_half_even_def Let_def pos_imp_zdiv_nonneg_iff)

lemma hex_letter_val_nonneg: "is_hex_letter c \<Longrightarrow> 0 \<le> hex_letter_val c"
  by (auto simp: is_hex_letter_def hex_letter_val_def ascii_lower_def)

lemma read_mantissa_nonneg:
  "0 \<le> mantissa st \<Longrightarrow> 0 \<le> mantissa (fst (read_mantissa hex st cs))"
proof (induction hex st cs rule: read_mantissa.induct)
  case (1 hex st)
  then show ?case by simp
next
  case (2 hex st c cs)
  have d: "0 \<le> mantissa st * (if hex then 16 else 10) + digit_val c" if "is_digit c"
    using that "2.prems" digit_val_range [of c] by simp
  have h: "0 \<le> mantissa st * 16 + hex_letter_val c" if "is_hex_letter c"
    using that "2.prems" hex_letter_val_nonneg [of c] by simp
  consider (us) "c = CHR ''_''"
    | (dot2) "c \<noteq> CHR ''_''" "c = CHR ''.''" "sawdot st"
    | (dot1) "c \<noteq> CHR ''_''" "c = CHR ''.''" "\<not> sawdot st"
    | (zero) "c \<noteq> CHR ''_''" "c \<noteq> CHR ''.''" "is_digit c" "c = CHR ''0'' \<and> nd st = 0"
    | (digit) "c \<noteq> CHR ''_''" "c \<noteq> CHR ''.''" "is_digit c" "\<not> (c = CHR ''0'' \<and> nd st = 0)"
    | (hexl) "c \<noteq> CHR ''_''" "c \<noteq> CHR ''.''" "\<not> is_digit c" "hex \<and> is_hex_letter c"
    | (stop) "c \<noteq> CHR ''_''" "c \<noteq> CHR ''.''" "\<not> is_digit c" "\<not> (hex \<and> is_hex_letter c)"
    by blast
  then show ?case
  proof cases
    case us
    then show ?thesis using "2.IH"(1) "2.prems" by simp
  next
    case dot2
    then show ?thesis using "2.prems" by simp
  next
    case dot1
    then show ?thesis using "2.IH"(2) "2.prems" by simp
  next
    case zero
    then show ?thesis using "2.IH"(3) "2.prems" by simp
  next
    case digit
    then show ?thesis using "2.IH"(4) [OF digit(1,2,3,4)] d by auto
  next
    case hexl
    then show ?thesis using "2.IH"(5) h by auto
  next
    case stop
    then show ?thesis using "2.prems" by auto
  qed
qed

lemma readFloat_nonneg:
  assumes "readFloat s = Some (neg, hex, m, n, d, rest)"
  shows "0 \<le> m"
proof -
  define s1 where "s1 = (if hd s = CHR ''+'' \<or> hd s = CHR ''-'' then tl s else s)"
  define hx where
    "hx = (2 < length s1 \<and> hd s1 = CHR ''0'' \<and> (s1 ! 1 = CHR ''x'' \<or> s1 ! 1 = CHR ''X''))"
  define s2 where "s2 = (if hx then drop 2 s1 else s1)"
  define st0 where "st0 = \<lparr>mantissa = 0, nd = 0, dp = 0, sawdot = False, sawdigits = False,
              underscores = False\<rparr>"
  obtain st s3 where rm: "read_mantissa hx st0 s2 = (st, s3)"
    by (cases "read_mantissa hx st0 s2") auto
  have "0 \<le> mantissa (fst (read_mantissa hx st0 s2))"
    by (rule read_mantissa_nonneg) (simp add: st0_def)
  with rm have "0 \<le> mantissa st" by simp
  moreover from assms rm have "m = mantissa st"
    unfolding readFloat_def Let_def s1_def [symmetric]
    unfolding hx_def [symmetric]
    unfolding s2_def [symmetric] st0_def [symmetric]
    by (auto split: if_splits option.splits)
  ultimately show ?thesis by simp
qed

lemma nearest_float64_nonneg:
  assumes "nearest_float64 num den = Some (k, ex)" and "0 \<le> num" and "0 < den"
  shows "0 \<le> k"
proof -
  define e where "e = max (floor_log2 num den) (- 1022) - 52"
  from assms(1) have "k = round_half_even (num * 2 ^ nat (- e)) (den * 2 ^ nat e)"
    unfolding nearest_float64_def Let_def e_def [symmetric] by (auto split: if_splits)
  moreover have "0 \<le> num * 2 ^ nat (- e)" "0 < den * 2 ^ nat e"
    using assms(2,3) by simp_all
  ultimately show ?thesis by (simp add: round_half_even_nonneg)
qed

lemma to_float64_nonneg:
  assumes "to_float64 neg hex m n d = Inr (Finite a k ex)" and "0 \<le> m"
  shows "0 \<le> k"
proof (cases "m = 0 \<or> (\<not> hex \<and> d < - 330)")
  case True
  with assms show ?thesis by (auto simp: to_float64_def split: if_splits)
next
  case False
  define b where "b = (if hex then 2 else 10 :: int)"
  define x where "x = d - int n"
  from assms(1) False have "nearest_float64 (m * b ^ nat x) (b ^ nat (- x)) = Some (k, ex)"
    unfolding to_float64_def Let_def b_def [symmetric] x_def [symmetric]
    by (auto split: if_splits option.splits)
  moreover have "0 \<le> m * b ^ nat x" "0 < b ^ nat (- x)"
    using assms(2) by (simp_all add: b_def)
  ultimately show ?thesis by (rule nearest_float64_nonneg)
qed

lemma special_not_Finite: "special s = Some (v, n) \<Longrightarrow> v = NaN \<or> (\<exists>neg. v = Inf neg)"
  by (auto simp: special_def special_inf_def Let_def split: list.splits if_splits)

lemma ParseFloat_nonneg:
  assumes "ParseFloat s = Inr (Finite a k ex)"
  shows "0 \<le> k"
proof (cases "special s")
  case (Some p)
  obtain v n where "p = (v, n)" by (cases p)
  with Some assms special_not_Finite [of s v n] show ?thesis
    by (auto simp: ParseFloat_def split: if_splits)
next
  case None
  with assms obtain neg hex m n d rest where rf: "readFloat s = Some (neg, hex, m, n, d, rest)"
    and tf: "to_float64 neg hex m n d = Inr (Finite a k ex)"
    by (auto simp: ParseFloat_def split: option.splits if_splits)
  from tf readFloat_nonneg [OF rf] show ?thesis by (rule to_float64_nonneg)
qed

lemma length_show_nat: "0 \<le> n \<Longrightarrow> n < 10 ^ k \<Longrightarrow> 0 < k \<Longrightarrow> length (show_nat n) \<le> k"
proof (induction n arbitrary: k rule: show_nat.induct)
  case (1 n)
  show ?case
  proof (cases "n < 10")
    case True
    with "1.prems" show ?thesis by (simp add: show_nat_small)
  next
    case False
    from "1.prems" obtain k' where k: "k = Suc k'" by (cases k) auto
    from False "1.prems" k have "0 < k'" by (cases k') auto
    moreover from "1.prems" k have "n div 10 < 10 ^ k'" by simp
    moreover from False have "0 \<le> n div 10" by simp
    ultimately have "length (show_nat (n div 10)) \<le> k'"
      using "1.IH" [OF False] by simp
    with False k show ?thesis by (subst show_nat.simps) simp
  qed
qed

lemma six_fraction_digits_intro:
  assumes "ip \<noteq> []" and "list_all is_digit ip" and "length fp = 6" and "list_all is_digit fp"
  shows "six_fraction_digits (ip @ CHR ''.'' # fp)"
    and "six_fraction_digits (CHR ''-'' # ip @ CHR ''.'' # fp)"
proof -
  from assms(1,2) have "is_digit (hd ip)" by (cases ip) auto
  then have "hd ip \<noteq> CHR ''-''" using not_digit_sign(2) by auto
  with assms(1) have h: "hd (ip @ CHR ''.'' # fp) \<noteq> CHR ''-''" by simp
  have l: "length (ip @ CHR ''.'' # fp) - 7 = length ip" using assms(3) by simp
  have b: "(let body = ip @ CHR ''.'' # fp;
         ip' = take (length body - 7) body;
         fp' = drop (length body - 7) body
     in ip' \<noteq> [] \<and> list_all is_digit ip' \<and> length fp' = 7 \<and> hd fp' = CHR ''.''
        \<and> list_all is_digit (tl fp'))"
    unfolding Let_def l using assms by simp
  from b h show "six_fraction_digits (ip @ CHR ''.'' # fp)"
    unfolding six_fraction_digits_def by simp
  from b show "six_fraction_digits (CHR ''-'' # ip @ CHR ''.'' # fp)"
    unfolding six_fraction_digits_def by simp
qed

lemma zero_pad_six:
  assumes "0 \<le> r" and "r < 10 ^ 6"
  shows "length (zero_pad 6 r) = 6" and "list_all is_digit (zero_pad 6 r)"
proof -
  from assms have "length (show_nat r) \<le> 6" by (intro length_show_nat) simp_all
  then show "length (zero_pad 6 r) = 6" by (simp add: zero_pad_def)
  have "is_digit (CHR ''0'')" by (simp add: is_digit_def)
  with show_nat_digits [OF assms(1)] show "list_all is_digit (zero_pad 6 r)"
    by (auto simp: zero_pad_def list_all_iff)
qed

lemma Sprintf_f_Finite:
  assumes "0 \<le> k"
  shows "six_fraction_digits (Sprintf_f (Finite neg k ex))"
proof -
  define q where "q = round_half_even (k * 10 ^ 6 * 2 ^ nat ex) (2 ^ nat (- ex))"
  have q: "0 \<le> q" unfolding q_def using assms by (intro round_half_even_nonneg) simp_all
  then have i: "0 \<le> q div 10 ^ 6" by (simp add: pos_imp_zdiv_nonneg_iff)
  have r: "0 \<le> q mod 10 ^ 6" "q mod 10 ^ 6 < 10 ^ 6" by simp_all
  have s: "Sprintf_f (Finite neg k ex)
      = (if neg then ''-'' else []) @ show_nat (q div 10 ^ 6) @ CHR ''.'' # zero_pad 6 (q mod 10 ^ 6)"
    by (simp add: Sprintf_f_def q_def Let_def)
  have "six_fraction_digits (show_nat (q div 10 ^ 6) @ CHR ''.'' # zero_pad 6 (q mod 10 ^ 6))"
    and "six_fraction_digits
          (CHR ''-'' # show_nat (q div 10 ^ 6) @ CHR ''.'' # zero_pad 6 (q mod 10 ^ 6))"
    using show_nat_nonempty [of "q div 10 ^ 6"] show_nat_digits [OF i] zero_pad_six [OF r]
    by (intro six_fraction_digits_intro; simp)+
  then show ?thesis unfolding s by simp
qed

text \<open>
  The literals of \<^const>\<open>special\<close>, in the words of the Go documentation:
  \<^verbatim>\<open>ParseFloat\<close> recognises the string \<^verbatim>\<open>NaN\<close>, and the (possibly signed) strings
  \<^verbatim>\<open>Inf\<close> and \<^verbatim>\<open>Infinity\<close>, as their respective special floating point values, and
  it ignores case when matching.
\<close>

definition nan_literal :: "string \<Rightarrow> bool" where
  "nan_literal t = (map ascii_lower t = ''nan'')"

definition inf_literal :: "string \<Rightarrow> bool" where
  "inf_literal t =
    (map ascii_lower (sign_stripped t) = ''inf'' \<or> map ascii_lower (sign_stripped t) = ''infinity'')"

lemma ascii_lower_i: "ascii_lower c = CHR ''i'' \<longleftrightarrow> c = CHR ''i'' \<or> c = CHR ''I''"
proof
  assume a: "ascii_lower c = CHR ''i''"
  have k: "char_of (73 :: int) = CHR ''I''" by code_simp
  show "c = CHR ''i'' \<or> c = CHR ''I''"
  proof (cases "65 \<le> (of_char c :: int) \<and> (of_char c :: int) \<le> 90")
    case True
    with a have "char_of (of_char c + 32 :: int) = CHR ''i''" by (simp add: ascii_lower_def)
    then have "(of_char (char_of (of_char c + 32 :: int)) :: int) = of_char (CHR ''i'')" by simp
    with True have "(of_char c :: int) = 73" by (simp add: of_char_of)
    then have "char_of (of_char c :: int) = char_of (73 :: int)" by simp
    with k show ?thesis by simp
  next
    case False
    with a show ?thesis by (simp add: ascii_lower_def)
  qed
next
  have "ascii_lower (CHR ''i'') = CHR ''i''" "ascii_lower (CHR ''I'') = CHR ''i''"
    by code_simp+
  moreover assume "c = CHR ''i'' \<or> c = CHR ''I''"
  ultimately show "ascii_lower c = CHR ''i''" by auto
qed

lemma ascii_lower_n: "ascii_lower c = CHR ''n'' \<longleftrightarrow> c = CHR ''n'' \<or> c = CHR ''N''"
proof
  assume a: "ascii_lower c = CHR ''n''"
  have k: "char_of (78 :: int) = CHR ''N''" by code_simp
  show "c = CHR ''n'' \<or> c = CHR ''N''"
  proof (cases "65 \<le> (of_char c :: int) \<and> (of_char c :: int) \<le> 90")
    case True
    with a have "char_of (of_char c + 32 :: int) = CHR ''n''" by (simp add: ascii_lower_def)
    then have "(of_char (char_of (of_char c + 32 :: int)) :: int) = of_char (CHR ''n'')" by simp
    with True have "(of_char c :: int) = 78" by (simp add: of_char_of)
    then have "char_of (of_char c :: int) = char_of (78 :: int)" by simp
    with k show ?thesis by simp
  next
    case False
    with a show ?thesis by (simp add: ascii_lower_def)
  qed
next
  have "ascii_lower (CHR ''n'') = CHR ''n''" "ascii_lower (CHR ''N'') = CHR ''n''"
    by code_simp+
  moreover assume "c = CHR ''n'' \<or> c = CHR ''N''"
  ultimately show "ascii_lower c = CHR ''n''" by auto
qed

lemma ascii_lower_sign: "ascii_lower c \<noteq> CHR ''i''" "ascii_lower c \<noteq> CHR ''n''"
  if "c = CHR ''+'' \<or> c = CHR ''-''"
  using that by (auto simp: ascii_lower_def)

lemma cpl_le_prefix: "commonPrefixLenIgnoreCase s p \<le> length p"
  by (induction s p rule: commonPrefixLenIgnoreCase.induct) simp_all

lemma cpl_full:
  "commonPrefixLenIgnoreCase s p = length s \<longleftrightarrow>
     length s \<le> length p \<and> map ascii_lower s = take (length s) p"
  by (induction s p rule: commonPrefixLenIgnoreCase.induct) auto

lemma special_inf_full:
  "special_inf neg k u = Some (v, k + length u) \<longleftrightarrow>
     v = Inf neg \<and> (map ascii_lower u = ''inf'' \<or> map ascii_lower u = ''infinity'')"
proof
  define n0 where "n0 = commonPrefixLenIgnoreCase u ''infinity''"
  assume a: "special_inf neg k u = Some (v, k + length u)"
  have le: "n0 \<le> length u" unfolding n0_def by (rule cpl_le)
  from a have v: "v = Inf neg" and n: "n0 = length u" and l: "length u = 3 \<or> length u = 8"
    using le unfolding special_inf_def n0_def [symmetric] Let_def
    by (auto split: if_splits)
  from n have "map ascii_lower u = take (length u) ''infinity''"
    by (simp add: n0_def cpl_full)
  with l v show "v = Inf neg \<and> (map ascii_lower u = ''inf'' \<or> map ascii_lower u = ''infinity'')"
    by auto
next
  assume a: "v = Inf neg \<and> (map ascii_lower u = ''inf'' \<or> map ascii_lower u = ''infinity'')"
  then have "map ascii_lower u = ''inf'' \<or> map ascii_lower u = ''infinity''" by simp
  then consider (short) "length u = 3" "map ascii_lower u = take (length u) ''infinity''"
    | (long) "length u = 8" "map ascii_lower u = take (length u) ''infinity''"
  proof
    assume m: "map ascii_lower u = ''inf''"
    then have "length (map ascii_lower u) = 3" by simp
    then have "length u = 3" by simp
    with m show ?thesis by (intro short) simp_all
  next
    assume m: "map ascii_lower u = ''infinity''"
    then have "length (map ascii_lower u) = 8" by simp
    then have "length u = 8" by simp
    with m show ?thesis by (intro long) simp_all
  qed
  then show "special_inf neg k u = Some (v, k + length u)"
  proof cases
    case short
    then have "commonPrefixLenIgnoreCase u ''infinity'' = 3"
      using cpl_full [of u "''infinity''"] by simp
    with a short show ?thesis by (simp add: special_inf_def)
  next
    case long
    then have "commonPrefixLenIgnoreCase u ''infinity'' = 8"
      using cpl_full [of u "''infinity''"] by simp
    with a long show ?thesis by (simp add: special_inf_def)
  qed
qed

lemma nan_literal_Cons:
  "nan_literal (c # u) \<Longrightarrow> (c = CHR ''n'' \<or> c = CHR ''N'') \<and> sign_stripped (c # u) = c # u"
  using ascii_lower_n [of c] by (auto simp: nan_literal_def sign_stripped_def)

lemma nan_not_inf: "nan_literal t \<Longrightarrow> \<not> inf_literal t"
proof (cases t)
  case Nil
  then show ?thesis by (simp add: inf_literal_def sign_stripped_def)
next
  case (Cons c u)
  assume n: "nan_literal t"
  with Cons nan_literal_Cons [of c u] have "sign_stripped t = t" by simp
  with n show ?thesis by (simp add: inf_literal_def nan_literal_def)
qed

lemma special_full:
  "special t = Some (v, length t) \<longleftrightarrow>
     nan_literal t \<and> v = NaN \<or> inf_literal t \<and> v = Inf (hd t = CHR ''-'')"
proof (cases t)
  case Nil
  then show ?thesis by (simp add: special_def nan_literal_def inf_literal_def sign_stripped_def)
next
  case (Cons c u)
  consider (sign) "c = CHR ''+'' \<or> c = CHR ''-''" | (i) "c = CHR ''i'' \<or> c = CHR ''I''"
    | (n) "c = CHR ''n'' \<or> c = CHR ''N''"
    | (other) "c \<noteq> CHR ''+''" "c \<noteq> CHR ''-''" "c \<noteq> CHR ''i''" "c \<noteq> CHR ''I''"
        "c \<noteq> CHR ''n''" "c \<noteq> CHR ''N''"
    by blast
  then show ?thesis
  proof cases
    case sign
    then have s: "special t = special_inf (c = CHR ''-'') 1 u" by (auto simp: Cons special_def)
    from sign have "\<not> nan_literal t" using nan_literal_Cons [of c u] by (auto simp: Cons)
    moreover from sign have "inf_literal t \<longleftrightarrow>
        map ascii_lower u = ''inf'' \<or> map ascii_lower u = ''infinity''"
      by (simp add: Cons inf_literal_def sign_stripped_def)
    moreover have "special t = Some (v, length t) \<longleftrightarrow>
        special_inf (c = CHR ''-'') 1 u = Some (v, 1 + length u)"
      unfolding s by (simp add: Cons)
    moreover have "(hd t = CHR ''-'') = (c = CHR ''-'')" by (simp add: Cons)
    ultimately show ?thesis
      using special_inf_full [of "c = CHR ''-''" 1 u v] by auto
  next
    case i
    then have s: "special t = special_inf False 0 t" by (auto simp: Cons special_def)
    from i have "\<not> nan_literal t" using nan_literal_Cons [of c u] by (auto simp: Cons)
    moreover from i have "inf_literal t \<longleftrightarrow>
        map ascii_lower t = ''inf'' \<or> map ascii_lower t = ''infinity''"
      by (auto simp: Cons inf_literal_def sign_stripped_def)
    moreover from i have "(hd t = CHR ''-'') = False" by (auto simp: Cons)
    moreover have "special t = Some (v, length t) \<longleftrightarrow>
        special_inf False 0 t = Some (v, 0 + length t)"
      unfolding s by simp
    ultimately show ?thesis
      using special_inf_full [of False 0 t v] by auto
  next
    case n
    then have s: "special t =
        (if commonPrefixLenIgnoreCase t ''nan'' = 3 then Some (NaN, 3) else None)"
      by (auto simp: Cons special_def)
    have "\<not> inf_literal t"
    proof
      assume "inf_literal t"
      with n have "ascii_lower c = CHR ''i''"
        by (auto simp: Cons inf_literal_def sign_stripped_def)
      with n show False using ascii_lower_i [of c] by auto
    qed
    moreover have "nan_literal t \<longleftrightarrow> commonPrefixLenIgnoreCase t ''nan'' = 3 \<and> length t = 3"
    proof
      assume m: "nan_literal t"
      then have "length (map ascii_lower t) = 3" by (simp add: nan_literal_def)
      then have l: "length t = 3" by simp
      with m have "commonPrefixLenIgnoreCase t ''nan'' = length t"
        unfolding cpl_full by (simp add: nan_literal_def)
      with l show "commonPrefixLenIgnoreCase t ''nan'' = 3 \<and> length t = 3" by simp
    next
      assume a: "commonPrefixLenIgnoreCase t ''nan'' = 3 \<and> length t = 3"
      then have e: "commonPrefixLenIgnoreCase t ''nan'' = length t" by simp
      from e [unfolded cpl_full] have "map ascii_lower t = take (length t) ''nan''" by simp
      with a show "nan_literal t" by (simp add: nan_literal_def)
    qed
    ultimately show ?thesis by (auto simp: s)
  next
    case other
    then have s: "special t = None" by (simp add: Cons special_def)
    from other have "\<not> nan_literal t" using nan_literal_Cons [of c u] by (auto simp: Cons)
    moreover have "\<not> inf_literal t"
    proof
      assume "inf_literal t"
      with other have "ascii_lower c = CHR ''i''"
        by (auto simp: Cons inf_literal_def sign_stripped_def)
      with other show False using ascii_lower_i [of c] by auto
    qed
    ultimately show ?thesis by (simp add: s)
  qed
qed

text \<open>
  The texts of the Float and Percent rules, by the text \<open>t\<close> that the rule gives to
  \<^const>\<open>ParseFloat\<close>: \<^verbatim>\<open>NaN\<close> when \<open>t\<close> is a NaN literal, \<^verbatim>\<open>-Inf\<close> or
  \<^verbatim>\<open>+Inf\<close> when it is an infinity literal with or without a minus sign, and a text with
  six fraction digits in every other case.
\<close>

definition float_form :: "string \<Rightarrow> string \<Rightarrow> bool" where
  "float_form t out =
    (if nan_literal t then out = ''NaN''
     else if inf_literal t then out = (if hd t = CHR ''-'' then ''-Inf'' else ''+Inf'')
     else six_fraction_digits out)"

lemma to_float64_Finite: "to_float64 neg hex m n d = Inr x \<Longrightarrow> \<exists>k ex. x = Finite neg k ex"
  by (auto simp: to_float64_def Let_def split: if_splits option.splits)

lemma ParseFloat_form:
  assumes "ParseFloat t = Inr x"
  shows "float_form t (Sprintf_f x)"
proof (cases "special t")
  case None
  then have lit: "\<not> nan_literal t" "\<not> inf_literal t"
    using special_full [of t NaN] special_full [of t "Inf (hd t = CHR ''-'')"] by auto
  from None assms obtain neg hex m n d rest
    where "to_float64 neg hex m n d = Inr x"
    by (auto simp: ParseFloat_def split: option.splits if_splits)
  then obtain k ex where x: "x = Finite neg k ex" by (auto dest: to_float64_Finite)
  with assms have "0 \<le> k" by (auto dest: ParseFloat_nonneg)
  with x lit show ?thesis by (simp add: float_form_def Sprintf_f_Finite)
next
  case (Some p)
  obtain v n where p: "p = (v, n)" by (cases p)
  with Some assms have n: "n = length t" and v: "x = v"
    by (auto simp: ParseFloat_def split: if_splits)
  with Some p have "special t = Some (x, length t)" by simp
  then consider (nan) "nan_literal t" "x = NaN"
    | (inf) "inf_literal t" "x = Inf (hd t = CHR ''-'')"
    unfolding special_full by blast
  then show ?thesis
  proof cases
    case nan
    then show ?thesis by (simp add: float_form_def Sprintf_f_def)
  next
    case inf
    with nan_not_inf [of t] have "\<not> nan_literal t" by auto
    with inf show ?thesis by (simp add: float_form_def Sprintf_f_def)
  qed
qed

lemma parseFloat_out: "parseFloat v = Inr out \<Longrightarrow> float_form (strip_commas v) out"
  by (auto simp: parseFloat_def split: sum.splits dest: ParseFloat_form)

lemma parsePercent_out: "parsePercent v = Inr out \<Longrightarrow> float_form (trim_suffix_percent v) out"
  by (auto simp: parsePercent_def split: sum.splits if_splits dest: ParseFloat_form)

lemma parseInt_out:
  assumes "parseInt v = Inr out"
  shows "Atoi out = Atoi (strip_commas v) \<and> \<not> isl (Atoi out) \<and> out = Itoa (projr (Atoi out))"
proof -
  from assms obtain n where n: "Atoi (strip_commas v) = Inr n" and out: "out = Itoa n"
    by (auto simp: parseInt_def split: sum.splits)
  from Atoi_range [OF n] have "Atoi (Itoa n) = Inr n" by (rule Atoi_Itoa)
  with n out show ?thesis by simp
qed

text \<open>
  What \<^const>\<open>Parse\<close> returns for a value \<open>v\<close> in a state \<open>f\<close>, by the rule that
  \<open>f\<close> resolves to: nothing for a blank value; the value followed by
  \<^verbatim>\<open>T00:00:00Z\<close> for Date; for Integer a text that \<^const>\<open>Atoi\<close> reads as the same
  integer as the value without its commas, and that is the canonical rendering of that
  integer; for Float the \<^const>\<open>float_form\<close> of the value without its commas, and for
  Percent the \<^const>\<open>float_form\<close> of the value without its final percent sign; the
  value itself for Text.
\<close>

definition normalised :: "fieldType \<Rightarrow> string \<Rightarrow> string \<Rightarrow> bool" where
  "normalised f v out =
    (if blank v then out = []
     else if Date f then out = v @ ''T00:00:00Z''
     else if Int' f then
       Atoi out = Atoi (strip_commas v) \<and> \<not> isl (Atoi out) \<and> out = Itoa (projr (Atoi out))
     else if Float f then float_form (strip_commas v) out
     else if Percent f then float_form (trim_suffix_percent v) out
     else out = v)"

lemma Parse_normalised:
  assumes "Parse f v = Inr out"
  shows "normalised f v out"
proof (cases "blank v")
  case True
  with assms show ?thesis by (simp add: Parse_blank normalised_def)
next
  case False
  consider (c_date) "Date f" | (c_int) "\<not> Date f" "Int' f"
    | (c_float) "\<not> Date f" "\<not> Int' f" "Float f"
    | (c_percent) "\<not> Date f" "\<not> Int' f" "\<not> Float f" "Percent f"
    | (c_text) "\<not> Date f" "\<not> Int' f" "\<not> Float f" "\<not> Percent f"
    by blast
  then show ?thesis
  proof cases
    case c_date
    with assms False have "parseDate v = Inr out" by (simp add: Parse_not_blank)
    then have "out = v @ ''T00:00:00Z''" by (rule parseDate_out)
    with False c_date show ?thesis by (simp add: normalised_def)
  next
    case c_int
    with assms False have "parseInt v = Inr out" by (simp add: Parse_not_blank)
    from parseInt_out [OF this] False c_int show ?thesis by (auto simp: normalised_def)
  next
    case c_float
    with assms False have "parseFloat v = Inr out" by (simp add: Parse_not_blank)
    then have "float_form (strip_commas v) out" by (rule parseFloat_out)
    with False c_float show ?thesis by (simp add: normalised_def)
  next
    case c_percent
    with assms False have "parsePercent v = Inr out" by (simp add: Parse_not_blank)
    then have "float_form (trim_suffix_percent v) out" by (rule parsePercent_out)
    with False c_percent show ?thesis by (simp add: normalised_def)
  next
    case c_text
    with assms False have "out = v" by (simp add: Parse_not_blank)
    with False c_text show ?thesis by (simp add: normalised_def)
  qed
qed


subsection \<open>The two passes agree\<close>

text \<open>
  A state accepts a value when the value is blank or passes the rule of every tag the
  state still holds. \<^const>\<open>Check\<close> makes the state accept the value it is given, and
  keeps every value accepted that was accepted before; \<^const>\<open>Parse\<close> succeeds on every
  accepted value. Over a table: after pass 1 the final states accept every cell of
  every row.
\<close>

fun row_ok :: "fieldType list \<Rightarrow> string list \<Rightarrow> bool" where
  "row_ok ts [] = True"
| "row_ok [] (v # vs) = False"
| "row_ok (t # ts) (v # vs) = (accepts t v \<and> row_ok ts vs)"

definition narrower :: "fieldType \<Rightarrow> fieldType \<Rightarrow> bool" where
  "narrower t' t = (\<forall>v. accepts t v \<longrightarrow> accepts t' v)"

lemma narrower_refl: "narrower t t"
  by (simp add: narrower_def)

lemma narrower_trans: "narrower a b \<Longrightarrow> narrower b c \<Longrightarrow> narrower a c"
  by (simp add: narrower_def)

lemma narrower_Check: "narrower (Check w t) t"
  by (simp add: narrower_def accepts_Check_mono)

lemma check_row_Inr:
  "check_row ts row = Inr ts' \<Longrightarrow> row_ok ts' row \<and> list_all2 narrower ts' ts"
proof (induction ts row arbitrary: ts' rule: check_row.induct)
  case (1 types)
  then show ?case by (simp add: list_all2_refl narrower_refl)
next
  case (2 field row)
  then show ?case by simp
next
  case (3 t types field row)
  from "3.prems" obtain ts'' where c: "check_row types row = Inr ts''"
    and t: "ts' = Check field t # ts''"
    by (auto split: sum.splits)
  from "3.IH" [OF c] t show ?case
    by (simp add: accepts_Check_same narrower_Check)
qed

lemma row_ok_narrower: "row_ok ts row \<Longrightarrow> list_all2 narrower ts' ts \<Longrightarrow> row_ok ts' row"
proof (induction ts row arbitrary: ts' rule: row_ok.induct)
  case (1 ts)
  then show ?case by simp
next
  case (2 v vs)
  then show ?case by simp
next
  case (3 t ts v vs)
  from "3.prems"(2) obtain u us where u: "ts' = u # us" "narrower u t" "list_all2 narrower us ts"
    by (auto simp: list_all2_Cons2)
  have "row_ok us vs" using "3.prems"(1) u(3) "3.IH" [of us] by simp
  moreover from "3.prems"(1) u(2) have "accepts u v" by (simp add: narrower_def)
  ultimately show ?case using u(1) by simp
qed

lemma pass1_Inr:
  "pass1 ts rows = Inr ts' \<Longrightarrow> list_all (row_ok ts') rows \<and> list_all2 narrower ts' ts"
proof (induction rows arbitrary: ts)
  case Nil
  then show ?case by (simp add: list_all2_refl narrower_refl)
next
  case (Cons row rows)
  from Cons.prems obtain ts1 where c: "check_row ts row = Inr ts1" and p: "pass1 ts1 rows = Inr ts'"
    by (auto split: sum.splits)
  from check_row_Inr [OF c] have r: "row_ok ts1 row" and n1: "list_all2 narrower ts1 ts" by simp_all
  from Cons.IH [OF p] have a: "list_all (row_ok ts') rows" and n2: "list_all2 narrower ts' ts1"
    by simp_all
  from r n2 have "row_ok ts' row" by (rule row_ok_narrower)
  moreover have "list_all2 narrower ts' ts"
    by (rule list_all2_trans [where ?P1.0 = narrower and ?P2.0 = narrower, OF _ n2 n1])
      (rule narrower_trans)
  ultimately show ?case using a by simp
qed

lemma parse_row_ok: "row_ok ts row \<Longrightarrow> \<exists>out. parse_row ts row = Inr out"
proof (induction ts row rule: row_ok.induct)
  case (1 ts)
  then show ?case by simp
next
  case (2 v vs)
  then show ?case by simp
next
  case (3 t ts v vs)
  then obtain out where o: "parse_row ts vs = Inr out" by auto
  from "3.prems" have "\<not> isl (Parse t v)" by (simp add: accepts_Parse)
  then obtain x where "Parse t v = Inr x" by (cases "Parse t v") auto
  with o show ?case by simp
qed

lemma pass2_ok: "list_all (row_ok ts) rows \<Longrightarrow> \<exists>out. pass2 ts rows = Inr out"
proof (induction rows)
  case Nil
  show ?case by simp
next
  case (Cons row rows)
  then obtain out where o: "pass2 ts rows = Inr out" by auto
  from Cons.prems obtain cells where "parse_row ts row = Inr cells"
    using parse_row_ok [of ts row] by auto
  with o show ?case by simp
qed

text \<open>
  Claim C1, as amended. Pass 2 cannot fail on what pass 1 has seen. For every column:
  \<^const>\<open>Parse\<close>, in the state that a fresh hypothesis reaches over the values of the
  column, succeeds on each of these values, and its result is \<^const>\<open>normalised\<close> for
  that state and that value. For Float and Percent this depends on the text that the
  rule reads as a number, which is the value without its commas (Float) or without its
  final percent sign (Percent): the result is \<^verbatim>\<open>NaN\<close> when that text is a NaN
  literal, \<^verbatim>\<open>+Inf\<close> or \<^verbatim>\<open>-Inf\<close> when it is an infinity literal, and a text with
  exactly six fraction digits in every other case; none of \<^verbatim>\<open>+Inf\<close>, \<^verbatim>\<open>-Inf\<close>,
  \<^verbatim>\<open>NaN\<close> has six fraction digits, so these three are returned for the literals only.
  In any state whatever, \<^const>\<open>Parse\<close> succeeds in the same way on every value that the
  state accepts. For every table: when pass 1 completes, pass 2 returns the rows, and
  reaches neither the fatal branch nor an index out of range. (The result is a function
  of the state and the value, hence deterministic.)
\<close>

theorem pass2_cannot_fail:
  "(v \<in> set vs \<longrightarrow>
      (\<exists>out. Parse (observe vs newFieldType) v = Inr out
         \<and> normalised (observe vs newFieldType) v out))
   \<and> (accepts f w \<longrightarrow> (\<exists>out. Parse f w = Inr out \<and> normalised f w out))
   \<and> (pass1 (map (\<lambda>col. newFieldType) header) rows = Inr types \<longrightarrow>
        (\<exists>out. pass2 types rows = Inr out))
   \<and> \<not> six_fraction_digits ''+Inf'' \<and> \<not> six_fraction_digits ''-Inf''
   \<and> \<not> six_fraction_digits ''NaN''"
proof -
  have 1: "\<exists>out. Parse (observe vs newFieldType) v = Inr out
         \<and> normalised (observe vs newFieldType) v out"
    if "v \<in> set vs"
  proof -
    from that have "\<not> isl (Parse (observe vs newFieldType) v)"
      by (simp add: accepts_observe accepts_Parse)
    then obtain out where "Parse (observe vs newFieldType) v = Inr out"
      by (cases "Parse (observe vs newFieldType) v") auto
    then show ?thesis by (auto intro: Parse_normalised)
  qed
  have 2: "\<exists>out. Parse f w = Inr out \<and> normalised f w out" if "accepts f w"
  proof -
    from that have "\<not> isl (Parse f w)" by (rule accepts_Parse)
    then obtain out where "Parse f w = Inr out"
      by (cases "Parse f w") auto
    then show ?thesis by (auto intro: Parse_normalised)
  qed
  have 3: "\<exists>out. pass2 types rows = Inr out"
    if "pass1 (map (\<lambda>col. newFieldType) header) rows = Inr types"
  proof -
    from that have "list_all (row_ok types) rows" by (simp add: pass1_Inr)
    then show ?thesis by (rule pass2_ok)
  qed
  have 4: "\<not> six_fraction_digits ''+Inf''" "\<not> six_fraction_digits ''-Inf''"
    "\<not> six_fraction_digits ''NaN''"
    by code_simp+
  from 1 2 3 4 show ?thesis by blast
qed

theorem pass2_cannot_fail_witness:
  "''2.25'' \<in> set [''1.5'', ''#DIV/0!'', ''2.25'']
   \<and> (\<exists>out. Parse (observe [''1.5'', ''#DIV/0!'', ''2.25''] newFieldType) ''2.25'' = Inr out
         \<and> normalised (observe [''1.5'', ''#DIV/0!'', ''2.25''] newFieldType) ''2.25'' out)
   \<and> accepts (newFieldType\<lparr>Date := False, Percent := False\<rparr>) ''7''
   \<and> (\<exists>out. Parse (newFieldType\<lparr>Date := False, Percent := False\<rparr>) ''7'' = Inr out
         \<and> normalised (newFieldType\<lparr>Date := False, Percent := False\<rparr>) ''7'' out)
   \<and> accepts (newFieldType\<lparr>Date := False, Int' := False, Percent := False\<rparr>) ''-Infinity''
   \<and> (\<exists>out. Parse (newFieldType\<lparr>Date := False, Int' := False, Percent := False\<rparr>)
               ''-Infinity'' = Inr out
         \<and> normalised (newFieldType\<lparr>Date := False, Int' := False, Percent := False\<rparr>)
               ''-Infinity'' out)
   \<and> accepts (newFieldType\<lparr>Date := False, Int' := False, Float := False\<rparr>) ''NaN%''
   \<and> (\<exists>out. Parse (newFieldType\<lparr>Date := False, Int' := False, Float := False\<rparr>)
               ''NaN%'' = Inr out
         \<and> normalised (newFieldType\<lparr>Date := False, Int' := False, Float := False\<rparr>)
               ''NaN%'' out)
   \<and> pass1 (map (\<lambda>col. newFieldType) [''n'', ''d''])
        [[''1'', ''2023-01-01''], [''2,000'', []]]
       = Inr [\<lparr>Date = False, Int' = True, Float = True, Percent = False, Empty = False,
               NonEmpty = True\<rparr>,
              \<lparr>Date = True, Int' = False, Float = False, Percent = False, Empty = True,
               NonEmpty = True\<rparr>]
   \<and> (\<exists>out. pass2 [\<lparr>Date = False, Int' = True, Float = True, Percent = False, Empty = False,
                       NonEmpty = True\<rparr>,
                      \<lparr>Date = True, Int' = False, Float = False, Percent = False, Empty = True,
                       NonEmpty = True\<rparr>]
               [[''1'', ''2023-01-01''], [''2,000'', []]] = Inr out)"
proof -
  have a: "''2.25'' \<in> set [''1.5'', ''#DIV/0!'', ''2.25'']" by simp
  have b: "pass1 (map (\<lambda>col. newFieldType) [''n'', ''d''])
        [[''1'', ''2023-01-01''], [''2,000'', []]]
       = Inr [\<lparr>Date = False, Int' = True, Float = True, Percent = False, Empty = False,
               NonEmpty = True\<rparr>,
              \<lparr>Date = True, Int' = False, Float = False, Percent = False, Empty = True,
               NonEmpty = True\<rparr>]"
    by code_simp
  have c: "accepts (newFieldType\<lparr>Date := False, Percent := False\<rparr>) ''7''"
  proof -
    have "\<not> isl (parseInt ''7'')" "\<not> isl (parseFloat ''7'')" by code_simp+
    then show ?thesis by (simp add: accepts_def newFieldType_def)
  qed
  have d: "accepts (newFieldType\<lparr>Date := False, Int' := False, Percent := False\<rparr>) ''-Infinity''"
  proof -
    have "\<not> isl (parseFloat ''-Infinity'')" by code_simp
    then show ?thesis by (simp add: accepts_def newFieldType_def)
  qed
  have e: "accepts (newFieldType\<lparr>Date := False, Int' := False, Float := False\<rparr>) ''NaN%''"
  proof -
    have "\<not> isl (parsePercent ''NaN%'')" by code_simp
    then show ?thesis by (simp add: accepts_def newFieldType_def)
  qed
  show ?thesis
    using a b c d e
      pass2_cannot_fail [of "''2.25''" "[''1.5'', ''#DIV/0!'', ''2.25'']"
        "newFieldType\<lparr>Date := False, Percent := False\<rparr>" "''7''" "[''n'', ''d'']"
        "[[''1'', ''2023-01-01''], [''2,000'', []]]"
        "[\<lparr>Date = False, Int' = True, Float = True, Percent = False, Empty = False,
               NonEmpty = True\<rparr>,
              \<lparr>Date = True, Int' = False, Float = False, Percent = False, Empty = True,
               NonEmpty = True\<rparr>]"]
      pass2_cannot_fail [of "''2.25''" "[''1.5'', ''#DIV/0!'', ''2.25'']"
        "newFieldType\<lparr>Date := False, Int' := False, Percent := False\<rparr>" "''-Infinity''"
        "[''n'', ''d'']" "[[''1'', ''2023-01-01''], [''2,000'', []]]"
        "[\<lparr>Date = False, Int' = True, Float = True, Percent = False, Empty = False,
               NonEmpty = True\<rparr>,
              \<lparr>Date = True, Int' = False, Float = False, Percent = False, Empty = True,
               NonEmpty = True\<rparr>]"]
      pass2_cannot_fail [of "''2.25''" "[''1.5'', ''#DIV/0!'', ''2.25'']"
        "newFieldType\<lparr>Date := False, Int' := False, Float := False\<rparr>" "''NaN%''"
        "[''n'', ''d'']" "[[''1'', ''2023-01-01''], [''2,000'', []]]"
        "[\<lparr>Date = False, Int' = True, Float = True, Percent = False, Empty = False,
               NonEmpty = True\<rparr>,
              \<lparr>Date = True, Int' = False, Float = False, Percent = False, Empty = True,
               NonEmpty = True\<rparr>]"]
    by blast
qed

text \<open>
  As the claim C1 is stated, with the type-valid text of a Float being one with exactly
  six fraction digits, it fails on the column with the single value \<^verbatim>\<open>inf\<close>:
  \<^const>\<open>ParseFloat\<close> accepts the text, the column resolves to \<^verbatim>\<open>float\<close>, and pass 2
  returns \<^verbatim>\<open>+Inf\<close>.
\<close>

theorem pass2_cannot_fail_counterexample:
  "SqlType (observe [''inf''] newFieldType) = ''float not null''
   \<and> \<not> isl (parseFloat ''inf'')
   \<and> Parse (observe [''inf''] newFieldType) ''inf'' = Inr ''+Inf''
   \<and> \<not> six_fraction_digits ''+Inf''"
  by code_simp


subsection \<open>The scenarios of the specification\<close>

text \<open>
  The model evaluated on the columns and the header row that the specification lists
  as scenarios, and on a small file as a whole.
\<close>

lemma scenario_float_nullable:
  "SqlType (observe [''1.5'', ''#DIV/0!'', ''2.25''] newFieldType) = ''float''
   \<and> map (Parse (observe [''1.5'', ''#DIV/0!'', ''2.25''] newFieldType))
         [''1.5'', ''#DIV/0!'', ''2.25'']
       = [Inr ''1.500000'', Inr [], Inr ''2.250000'']"
  by code_simp

lemma scenario_percent:
  "SqlType (observe [''10%'', ''20%''] newFieldType) = ''float not null''
   \<and> map (Parse (observe [''10%'', ''20%''] newFieldType)) [''10%'', ''20%'']
       = [Inr ''10.000000'', Inr ''20.000000'']"
  by code_simp

lemma scenario_date:
  "SqlType (observe [''2023-01-01'', ''2023-02-15''] newFieldType) = ''timestamptz not null''
   \<and> map (Parse (observe [''2023-01-01'', ''2023-02-15''] newFieldType))
         [''2023-01-01'', ''2023-02-15'']
       = [Inr ''2023-01-01T00:00:00Z'', Inr ''2023-02-15T00:00:00Z'']"
  by code_simp

lemma scenario_file:
  "handle [[''Qty'', ''When'', ''Note'', ''Pct''],
           [''1'', ''2023-01-01'', ''a'', ''10%''],
           [''2,000'', [], ''b,c'', ''#DIV/0!'']]
   = Inr ([''qty'', ''when'', ''note'', ''pct''],
          [''integer not null'', ''timestamptz'', ''text'', ''float''],
          [[''1'', ''2023-01-01T00:00:00Z'', ''a'', ''10.000000''],
           [''2000'', [], ''b,c'', []]])"
  by code_simp

end
